theory Spec2Isabelle
  imports Main "HOL-Library.Char_ord" "HOL-Library.Code_Target_Numeral"
begin

section \<open>Memory, pointers and faults\<close>

text \<open>
  The string library of NatsuLib (\<^verbatim>\<open>natString.h\<close>) works on raw pointers into arrays of
  code units. The embedding keeps an explicit store: a memory is a list of blocks, a block
  is an array object (a string literal, the inline array of a string object, a buffer
  obtained from \<^verbatim>\<open>new[]\<close>) and its index in the list is its address. A cell of a block
  holds a code unit or an indeterminate value (\<open>None\<close>), as the cells of a buffer that
  \<^verbatim>\<open>new CharType[n]\<close> has just returned do. A block that \<^verbatim>\<open>delete[]\<close> has released is
  \<open>Freed\<close>.

  Whatever the source does that has no defined result is a value of the model: a failed
  \<^verbatim>\<open>assert\<close> (the debug build aborts there), a read or a write outside a block or through
  a pointer that holds no live block, the read of an indeterminate cell, and the one
  exception the header throws, \<^verbatim>\<open>natException\<close> with its message.
\<close>

datatype fault =
    AssertionFailed
  | InvalidPointer
  | OutOfBounds
  | IndeterminateValue
  | natException string

type_synonym addr = nat

datatype pointer = nullptr | Ptr addr | Indeterminate

datatype 'c block = Freed | Live "'c option list"

type_synonym 'c memory = "'c block list"

definition bindF :: "fault + 'a \<Rightarrow> ('a \<Rightarrow> fault + 'b) \<Rightarrow> fault + 'b" where
  "bindF m f = (case m of Inl e \<Rightarrow> Inl e | Inr x \<Rightarrow> f x)"

definition cells_of :: "'c memory \<Rightarrow> pointer \<Rightarrow> fault + 'c option list" where
  "cells_of mem p =
     (case p of
        Ptr a \<Rightarrow> (if a < length mem
                  then (case mem ! a of Live cs \<Rightarrow> Inr cs | Freed \<Rightarrow> Inl InvalidPointer)
                  else Inl InvalidPointer)
      | _ \<Rightarrow> Inl InvalidPointer)"

text \<open>\<open>load mem p i\<close> is the read \<^verbatim>\<open>p[i]\<close>, \<open>store mem p i v\<close> the write \<^verbatim>\<open>p[i] = v\<close>.\<close>

definition load :: "'c memory \<Rightarrow> pointer \<Rightarrow> nat \<Rightarrow> fault + 'c" where
  "load mem p i =
     bindF (cells_of mem p) (\<lambda>cs.
       if i < length cs
       then (case cs ! i of Some x \<Rightarrow> Inr x | None \<Rightarrow> Inl IndeterminateValue)
       else Inl OutOfBounds)"

definition store :: "'c memory \<Rightarrow> pointer \<Rightarrow> nat \<Rightarrow> 'c \<Rightarrow> fault + 'c memory" where
  "store mem p i v =
     bindF (cells_of mem p) (\<lambda>cs.
       if i < length cs
       then (case p of Ptr a \<Rightarrow> Inr (mem[a := Live (cs[i := Some v])])
                     | _ \<Rightarrow> Inl InvalidPointer)
       else Inl OutOfBounds)"

definition block_size :: "'c memory \<Rightarrow> pointer \<Rightarrow> nat" where
  "block_size mem p = (case cells_of mem p of Inr cs \<Rightarrow> length cs | Inl e \<Rightarrow> 0)"

fun load_range :: "'c memory \<Rightarrow> pointer \<Rightarrow> nat \<Rightarrow> nat \<Rightarrow> fault + 'c list" where
  "load_range mem p i 0 = Inr []"
| "load_range mem p i (Suc n) =
     bindF (load mem p i) (\<lambda>x. bindF (load_range mem p (Suc i) n) (\<lambda>xs. Inr (x # xs)))"

subsection \<open>Machine integers\<close>

text \<open>
  \<^verbatim>\<open>size_t\<close> is an unsigned and \<^verbatim>\<open>std::ptrdiff_t\<close> a signed 64-bit integer. Sizes are
  natural numbers and offsets integers; the conversions write the wrap-around out.
\<close>

definition size_t :: "int \<Rightarrow> nat" where
  "size_t i = nat (i mod 2 ^ 64)"

definition ptrdiff_t :: "int \<Rightarrow> int" where
  "ptrdiff_t i = (i + 2 ^ 63) mod 2 ^ 64 - 2 ^ 63"

definition npos :: nat where
  "npos = size_t (- 1)"

section \<open>StringView\<close>

text \<open>
  A view is the pointer pair \<^verbatim>\<open>(m_StrBegin, m_StrEnd)\<close>. Both pointers point into one
  array, so the record holds the array (\<open>m_Base\<close>, the address of its first element) and
  the two positions in it.
\<close>

record StringView =
  m_Base :: pointer
  m_StrBegin :: nat
  m_StrEnd :: nat

definition GetSize :: "StringView \<Rightarrow> nat" where
  "GetSize v = size_t (int (m_StrEnd v) - int (m_StrBegin v))"

definition contents :: "'c memory \<Rightarrow> StringView \<Rightarrow> fault + 'c list" where
  "contents mem v = load_range mem (m_Base v) (m_StrBegin v) (GetSize v)"

text \<open>A view made of a pointer and a length, \<^verbatim>\<open>StringView(begin, length)\<close>.\<close>

definition StringView_of :: "pointer \<Rightarrow> nat \<Rightarrow> StringView" where
  "StringView_of p n = \<lparr>m_Base = p, m_StrBegin = 0, m_StrEnd = n\<rparr>"

text \<open>
  \<^verbatim>\<open>ApplyOffset\<close>: the offset is cast to \<^verbatim>\<open>size_t\<close>, a negative one has \<open>size + 1\<close> added
  (modulo \<open>2 ^ 64\<close>), and the result is asserted to be at most the size.
\<close>

definition ApplyOffset :: "int \<Rightarrow> nat \<Rightarrow> fault + nat" where
  "ApplyOffset offset sz =
     (let ret = size_t offset;
          ret = (if offset < 0 then size_t (int ret + (int sz + 1)) else ret)
      in if ret \<le> sz then Inr ret else Inl AssertionFailed)"

text \<open>
  \<^verbatim>\<open>Slice\<close> returns \<^verbatim>\<open>{ m_StrBegin + ApplyOffset(begin, size), m_StrEnd + ApplyOffset(end, size) }\<close>:
  the second pointer is computed from \<^verbatim>\<open>m_StrEnd\<close>.
\<close>

definition Slice :: "StringView \<Rightarrow> int \<Rightarrow> int \<Rightarrow> fault + StringView" where
  "Slice v begin end =
     (let sz = GetSize v in
      bindF (ApplyOffset begin sz) (\<lambda>b.
      bindF (ApplyOffset end sz) (\<lambda>e.
        Inr \<lparr>m_Base = m_Base v, m_StrBegin = m_StrBegin v + b, m_StrEnd = m_StrEnd v + e\<rparr>)))"

text \<open>
  Element access. A reference to a code unit is the pair of the array and the position
  in it; \<open>deref\<close> reads through it.
\<close>

type_synonym reference = "pointer \<times> nat"

definition deref :: "'c memory \<Rightarrow> reference \<Rightarrow> fault + 'c" where
  "deref mem r = load mem (fst r) (snd r)"

definition UncheckGet :: "StringView \<Rightarrow> nat \<Rightarrow> fault + reference" where
  "UncheckGet v pos =
     (if pos < GetSize v then Inr (m_Base v, m_StrBegin v + pos) else Inl AssertionFailed)"

definition Get :: "StringView \<Rightarrow> nat \<Rightarrow> fault + reference" where
  "Get v pos =
     (if pos \<ge> GetSize v then Inl (natException ''Pos is out of range.'')
      else UncheckGet v pos)"

text \<open>
  \<^verbatim>\<open>Compare\<close>. Code units are compared as values of their unsigned type; the model takes
  the code units from a linearly ordered type whose order is the order of these unsigned
  values. The loop runs while both views have a code unit left, and \<open>0\<close> is returned
  once either of them is exhausted.
\<close>

lemma bindF_cong [fundef_cong]:
  "m = m' \<Longrightarrow> (\<And>x. m' = Inr x \<Longrightarrow> f x = f' x) \<Longrightarrow> bindF m f = bindF m' f'"
  by (cases m') (simp_all add: bindF_def)

lemma load_in_block: "load mem p i = Inr x \<Longrightarrow> i < block_size mem p"
  by (cases "cells_of mem p") (auto simp: load_def block_size_def bindF_def split: if_splits)

function Compare_loop ::
  "'c::linorder memory \<Rightarrow> pointer \<Rightarrow> nat \<Rightarrow> nat \<Rightarrow> pointer \<Rightarrow> nat \<Rightarrow> nat \<Rightarrow> fault + int" where
  "Compare_loop mem a read readEnd b otherRead otherEnd =
     (if read \<noteq> readEnd \<and> otherRead \<noteq> otherEnd then
        bindF (load mem a read) (\<lambda>elem.
        bindF (load mem b otherRead) (\<lambda>otherElem.
          if elem \<noteq> otherElem then Inr (if elem > otherElem then 1 else - 1)
          else Compare_loop mem a (Suc read) readEnd b (Suc otherRead) otherEnd))
      else Inr 0)"
  by pat_completeness auto
termination
  by (relation "measure (\<lambda>(mem, a, read, readEnd, b, otherRead, otherEnd).
                  block_size mem a - read)")
     (auto dest: load_in_block)

definition Compare :: "'c::linorder memory \<Rightarrow> StringView \<Rightarrow> StringView \<Rightarrow> fault + int" where
  "Compare mem v other =
     Compare_loop mem (m_Base v) (m_StrBegin v) (m_StrEnd v)
       (m_Base other) (m_StrBegin other) (m_StrEnd other)"

definition op_eq :: "'c::linorder memory \<Rightarrow> StringView \<Rightarrow> StringView \<Rightarrow> fault + bool" where
  "op_eq mem v other =
     (if GetSize v \<noteq> GetSize other then Inr False
      else bindF (Compare mem v other) (\<lambda>r. Inr (r = 0)))"

definition op_less :: "'c::linorder memory \<Rightarrow> StringView \<Rightarrow> StringView \<Rightarrow> fault + bool" where
  "op_less mem v other = bindF (Compare mem v other) (\<lambda>r. Inr (r < 0))"

definition op_greater :: "'c::linorder memory \<Rightarrow> StringView \<Rightarrow> StringView \<Rightarrow> fault + bool" where
  "op_greater mem v other = bindF (Compare mem v other) (\<lambda>r. Inr (r > 0))"

definition op_less_eq :: "'c::linorder memory \<Rightarrow> StringView \<Rightarrow> StringView \<Rightarrow> fault + bool" where
  "op_less_eq mem v other = bindF (Compare mem v other) (\<lambda>r. Inr (r \<le> 0))"

definition op_greater_eq :: "'c::linorder memory \<Rightarrow> StringView \<Rightarrow> StringView \<Rightarrow> fault + bool" where
  "op_greater_eq mem v other = bindF (Compare mem v other) (\<lambda>r. Inr (r \<ge> 0))"

subsection \<open>Search for a run of one character\<close>

text \<open>
  \<^verbatim>\<open>detail_::SearchCharRepeat\<close>, on the pointers \<open>srcBegin\<close> and \<open>srcEnd\<close> into the array
  \<open>src\<close>. \<open>SearchChar_scan\<close> is the inner loop that looks for \<open>searchChar\<close>,
  \<open>SearchChar_run\<close> the loop that counts the run; after a mismatch the scan starts again
  at \<open>current + matchLen + 1\<close>. A match returns \<^verbatim>\<open>srcEnd - current\<close>.
\<close>

function SearchChar_scan ::
    "'c memory \<Rightarrow> pointer \<Rightarrow> nat \<Rightarrow> 'c \<Rightarrow> nat \<Rightarrow> nat \<Rightarrow> fault + nat"
  and SearchChar_run ::
    "'c memory \<Rightarrow> pointer \<Rightarrow> nat \<Rightarrow> 'c \<Rightarrow> nat \<Rightarrow> nat \<Rightarrow> nat \<Rightarrow> fault + nat" where
  "SearchChar_scan mem src srcEnd searchChar repeatCount current =
     (if int srcEnd - int current < ptrdiff_t (int repeatCount) then Inr npos
      else bindF (load mem src current) (\<lambda>x.
        if x = searchChar
        then SearchChar_run mem src srcEnd searchChar repeatCount current 1
        else SearchChar_scan mem src srcEnd searchChar repeatCount (Suc current)))"
| "SearchChar_run mem src srcEnd searchChar repeatCount current matchLen =
     (if matchLen \<ge> repeatCount then Inr (size_t (int srcEnd - int current))
      else bindF (load mem src (current + matchLen)) (\<lambda>x.
        if x \<noteq> searchChar
        then SearchChar_scan mem src srcEnd searchChar repeatCount (Suc (current + matchLen))
        else SearchChar_run mem src srcEnd searchChar repeatCount current (Suc matchLen)))"
  by pat_completeness auto
termination
  by (relation "measure (\<lambda>x. case x of
          Inl (mem, src, srcEnd, c, n, current) \<Rightarrow>
            2 * (Suc (block_size mem src) - current) + 1
        | Inr (mem, src, srcEnd, c, n, current, matchLen) \<Rightarrow>
            2 * (Suc (block_size mem src) - (current + matchLen)))")
     (auto dest!: load_in_block)

definition SearchCharRepeat ::
  "'c memory \<Rightarrow> pointer \<Rightarrow> nat \<Rightarrow> nat \<Rightarrow> 'c \<Rightarrow> nat \<Rightarrow> fault + nat" where
  "SearchCharRepeat mem src srcBegin srcEnd searchChar repeatCount =
     (if repeatCount = 0 then Inl AssertionFailed
      else if \<not> size_t (int srcEnd - int srcBegin) > repeatCount then Inl AssertionFailed
      else SearchChar_scan mem src srcEnd searchChar repeatCount srcBegin)"

definition FindCharRepeat ::
  "'c memory \<Rightarrow> StringView \<Rightarrow> 'c \<Rightarrow> nat \<Rightarrow> int \<Rightarrow> fault + nat" where
  "FindCharRepeat mem v findChar repeatCount nBegin =
     (let len = GetSize v in
      bindF (ApplyOffset nBegin len) (\<lambda>realBegin.
        if repeatCount = 0 then Inr realBegin
        else if len < repeatCount \<or> size_t (int realBegin + int repeatCount) > len
        then Inr npos
        else bindF (SearchCharRepeat mem (m_Base v) (m_StrBegin v + realBegin) (m_StrEnd v)
                      findChar repeatCount) (\<lambda>pos.
          if pos = npos then Inr npos else Inr (size_t (int pos + int realBegin)))))"

definition FindChar :: "'c memory \<Rightarrow> StringView \<Rightarrow> 'c \<Rightarrow> int \<Rightarrow> fault + nat" where
  "FindChar mem v findChar nBegin = FindCharRepeat mem v findChar 1 nBegin"

subsection \<open>Substring search\<close>

text \<open>
  \<^verbatim>\<open>detail_::MatchString\<close>. The failure table is an array of entries of type
  \<^verbatim>\<open>std::ptrdiff_t\<close>, none of them initialised, with \<open>tableSize = patternSize - 1\<close>; the
  code writes the entries \<open>0\<close> to \<open>tableSize - 1\<close> (and entry \<open>0\<close> always). The entries and the
  indices \<open>pos\<close>, \<open>cand\<close> and \<open>matchLen\<close> are never negative and are natural numbers
  here. A table of \<open>MaxAllocaSize / sizeof(std::ptrdiff_t) = 8192\<close> entries or more comes
  from \<^verbatim>\<open>new (std::nothrow) std::ptrdiff_t[tableSize]\<close>, which may return a null pointer:
  \<open>alloc_ok\<close> says whether that allocation succeeds, and a null table is \<open>None\<close>. A
  smaller table comes from \<^verbatim>\<open>alloca(tableSize)\<close>: the argument of \<^verbatim>\<open>alloca\<close> is a number of
  bytes, so that block has room for \<open>tableSize div sizeof(std::ptrdiff_t)\<close> entries only
  (\<open>sizeof(std::ptrdiff_t) = 8\<close>). An access outside the entries of the block is out of
  bounds.

  The loops of \<^verbatim>\<open>MatchString\<close> end only if the table lets them, so they take fuel: one
  unit for every pass through a loop body or jump, and \<open>None\<close> when it runs out.
\<close>

type_synonym table = "nat option list"

definition table_read :: "table \<Rightarrow> nat \<Rightarrow> fault + nat" where
  "table_read t i =
     (if i < length t
      then (case t ! i of Some x \<Rightarrow> Inr x | None \<Rightarrow> Inl IndeterminateValue)
      else Inl OutOfBounds)"

definition table_write :: "table \<Rightarrow> nat \<Rightarrow> nat \<Rightarrow> fault + table" where
  "table_write t i x = (if i < length t then Inr (t[i := Some x]) else Inl OutOfBounds)"

definition bindO :: "fault + 'a \<Rightarrow> ('a \<Rightarrow> (fault + 'b) option) \<Rightarrow> (fault + 'b) option" where
  "bindO m f = (case m of Inl e \<Rightarrow> Some (Inl e) | Inr x \<Rightarrow> f x)"

text \<open>
  One pass through the body of the \<^verbatim>\<open>do ... while\<close> loop that fills the table; it
  returns the new \<open>pos\<close>, \<open>cand\<close> and table. The \<^verbatim>\<open>continue\<close> of the last branch goes to
  the loop condition with \<open>pos\<close> unchanged.
\<close>

definition BuildTable_body ::
  "'c memory \<Rightarrow> pointer \<Rightarrow> nat \<Rightarrow> nat \<Rightarrow> nat \<Rightarrow> table \<Rightarrow> fault + (nat \<times> nat \<times> table)" where
  "BuildTable_body mem pat patternBegin pos cand t =
     bindF (load mem pat (patternBegin + pos)) (\<lambda>x.
     bindF (load mem pat (patternBegin + cand)) (\<lambda>y.
       if x = y then
         (let cand = Suc cand in
          bindF (load mem pat (patternBegin + (pos + 1))) (\<lambda>x1.
          bindF (load mem pat (patternBegin + cand)) (\<lambda>y1.
          bindF (if x1 = y1 then table_read t (cand - 1) else Inr cand) (\<lambda>entry.
          bindF (table_write t pos entry) (\<lambda>t'.
            Inr (Suc pos, cand, t'))))))
       else if cand = 0 then
         bindF (table_write t pos 0) (\<lambda>t'. Inr (Suc pos, cand, t'))
       else
         bindF (table_read t (cand - 1)) (\<lambda>cand'. Inr (pos, cand', t))))"

primrec BuildTable_loop ::
  "nat \<Rightarrow> 'c memory \<Rightarrow> pointer \<Rightarrow> nat \<Rightarrow> nat \<Rightarrow> nat \<Rightarrow> nat \<Rightarrow> table \<Rightarrow> (fault + table) option" where
  "BuildTable_loop 0 mem pat patternBegin patternSize pos cand t = None"
| "BuildTable_loop (Suc fuel) mem pat patternBegin patternSize pos cand t =
     bindO (BuildTable_body mem pat patternBegin pos cand t) (\<lambda>(pos', cand', t').
       if pos' < patternSize - 1
       then BuildTable_loop fuel mem pat patternBegin patternSize pos' cand' t'
       else Some (Inr t'))"

definition BuildTable ::
  "nat \<Rightarrow> 'c memory \<Rightarrow> pointer \<Rightarrow> nat \<Rightarrow> nat \<Rightarrow> table \<Rightarrow> (fault + table) option" where
  "BuildTable fuel mem pat patternBegin patternSize t =
     bindO (table_write t 0 0) (\<lambda>t1.
       if patternSize > 2
       then BuildTable_loop fuel mem pat patternBegin patternSize 1 0 t1
       else Some (Inr t1))"

text \<open>
  The matching loops. Control is at one of three places: \<open>AtScan\<close> is the \<^verbatim>\<open>for\<close> loop
  looking for the first code unit of the pattern, \<open>AtVerify\<close> the head of the inner
  \<^verbatim>\<open>while\<close> loop, with the test that returns the offset \<^verbatim>\<open>current - srcBegin\<close>, and
  \<open>AtFallback\<close> the label \<^verbatim>\<open>Fallback\<close>, which the \<^verbatim>\<open>goto\<close> enters without the test of
  the remaining length. Stepping \<open>current\<close> back before the start of the array is out of
  bounds. (\<open>matchLen\<close> is not read at \<open>AtScan\<close>.)
\<close>

datatype label = AtScan | AtVerify | AtFallback

primrec Match_loop ::
    "nat \<Rightarrow> 'c memory \<Rightarrow> pointer \<Rightarrow> nat \<Rightarrow> nat \<Rightarrow> pointer \<Rightarrow> nat \<Rightarrow> nat \<Rightarrow>
      table option \<Rightarrow> label \<Rightarrow> nat \<Rightarrow> nat \<Rightarrow> (fault + nat) option" where
  "Match_loop 0 mem src srcBegin srcEnd pat patternBegin patternSize table l current matchLen =
     None"
| "Match_loop (Suc fuel) mem src srcBegin srcEnd pat patternBegin patternSize table l current
      matchLen =
     (case l of
        AtScan \<Rightarrow>
          (if int srcEnd - int current < ptrdiff_t (int patternSize) then Some (Inr npos)
           else bindO (load mem src current) (\<lambda>x.
                bindO (load mem pat patternBegin) (\<lambda>y.
                  if x = y
                  then Match_loop fuel mem src srcBegin srcEnd pat patternBegin patternSize
                         table AtVerify current 1
                  else Match_loop fuel mem src srcBegin srcEnd pat patternBegin patternSize
                         table AtScan (Suc current) matchLen)))
      | AtVerify \<Rightarrow>
          (if matchLen \<ge> patternSize then Some (Inr (size_t (int current - int srcBegin)))
           else Match_loop fuel mem src srcBegin srcEnd pat patternBegin patternSize
                  table AtFallback current matchLen)
      | AtFallback \<Rightarrow>
          bindO (load mem src (current + matchLen)) (\<lambda>x.
          bindO (load mem pat (patternBegin + matchLen)) (\<lambda>y.
            if x \<noteq> y then
              (case table of
                 None \<Rightarrow>
                   Match_loop fuel mem src srcBegin srcEnd pat patternBegin patternSize
                     table AtScan (Suc current) matchLen
               | Some t \<Rightarrow>
                   (let current = current + matchLen in
                    bindO (table_read t (matchLen - 1)) (\<lambda>fallback.
                      if fallback \<noteq> 0 then
                        (if fallback \<le> current
                         then Match_loop fuel mem src srcBegin srcEnd pat patternBegin
                                patternSize table AtFallback (current - fallback) fallback
                         else Some (Inl OutOfBounds))
                      else Match_loop fuel mem src srcBegin srcEnd pat patternBegin
                             patternSize table AtScan current matchLen)))
            else Match_loop fuel mem src srcBegin srcEnd pat patternBegin patternSize
                   table AtVerify current (Suc matchLen))))"

definition MaxAllocaSize :: nat where
  "MaxAllocaSize = 0x10000"

definition sizeof_ptrdiff_t :: nat where
  "sizeof_ptrdiff_t = 8"

text \<open>
  \<^verbatim>\<open>MatchString\<close> in two parts: \<open>MatchString_table\<close> is the allocation and the construction
  of the failure table (\<^verbatim>\<open>natString.h:137-187\<close>), and \<open>MatchString\<close> the assertions, the table
  and then the matching loops.
\<close>

definition MatchString_table ::
  "nat \<Rightarrow> bool \<Rightarrow> 'c memory \<Rightarrow> pointer \<Rightarrow> nat \<Rightarrow> nat \<Rightarrow> (fault + table option) option" where
  "MatchString_table fuel alloc_ok mem pat patternBegin patternSize =
     (let tableSize = size_t (int patternSize - 1);
          table = (if tableSize \<ge> MaxAllocaSize div sizeof_ptrdiff_t
                   then (if alloc_ok then Some (replicate tableSize None) else None)
                   else Some (replicate (tableSize div sizeof_ptrdiff_t) None))
      in case table of
           None \<Rightarrow> Some (Inr None)
         | Some t \<Rightarrow>
             map_option (map_sum id Some) (BuildTable fuel mem pat patternBegin patternSize t))"

definition MatchString ::
  "nat \<Rightarrow> bool \<Rightarrow> 'c memory \<Rightarrow> pointer \<Rightarrow> nat \<Rightarrow> nat \<Rightarrow> pointer \<Rightarrow> nat \<Rightarrow> nat \<Rightarrow>
    (fault + nat) option" where
  "MatchString fuel alloc_ok mem src srcBegin srcEnd pat patternBegin patternEnd =
     (if srcBegin = srcEnd then Some (Inl AssertionFailed)
      else if \<not> size_t (int srcEnd - int srcBegin) \<ge> size_t (int patternEnd - int patternBegin)
      then Some (Inl AssertionFailed)
      else
        (let patternSize = size_t (int patternEnd - int patternBegin)
         in case MatchString_table fuel alloc_ok mem pat patternBegin patternSize of
              None \<Rightarrow> None
            | Some (Inl e) \<Rightarrow> Some (Inl e)
            | Some (Inr table) \<Rightarrow>
                Match_loop fuel mem src srcBegin srcEnd pat patternBegin patternSize
                  table AtScan srcBegin 1))"

definition Find ::
  "nat \<Rightarrow> bool \<Rightarrow> 'c memory \<Rightarrow> StringView \<Rightarrow> StringView \<Rightarrow> int \<Rightarrow> (fault + nat) option" where
  "Find fuel alloc_ok mem v pattern nBegin =
     (let len = GetSize v in
      bindO (ApplyOffset nBegin len) (\<lambda>realBegin.
        let patternLength = GetSize pattern in
        if patternLength = 0 then Some (Inr realBegin)
        else if len < patternLength \<or> size_t (int realBegin + int patternLength) > len
        then Some (Inr npos)
        else
          (case MatchString fuel alloc_ok mem (m_Base v) (m_StrBegin v + realBegin) (m_StrEnd v)
                  (m_Base pattern) (m_StrBegin pattern) (m_StrEnd pattern) of
             None \<Rightarrow> None
           | Some (Inl e) \<Rightarrow> Some (Inl e)
           | Some (Inr pos) \<Rightarrow>
               if pos = npos then Some (Inr npos)
               else Some (Inr (size_t (int pos + int realBegin))))))"

section \<open>StringStorage and String\<close>

text \<open>
  The storage writes the terminator \<^verbatim>\<open>CharType{}\<close>, the zero of the code unit type. For
  \<^verbatim>\<open>char\<close> that is the character with code 0.
\<close>

instantiation char :: zero
begin

definition zero_char :: char where
  "zero_char = CHR 0x00"

instance ..

end

text \<open>
  \<^verbatim>\<open>detail_::Grow\<close>, in \<^verbatim>\<open>size_t\<close> arithmetic:
  \<^verbatim>\<open>max(size + 1, (size + 1 + ((size + 1) >> 1) + 0x0F) & size_t(-0x10))\<close>.
\<close>

definition Grow :: "nat \<Rightarrow> nat" where
  "Grow sz =
     (let a = size_t (int sz + 1);
          c = size_t (int a + int (a div 2) + 15)
      in max a (c - c mod 16))"

text \<open>
  \<^verbatim>\<open>StringStorage<CharType, ArrayMaxSize>\<close>. The template parameter \<^verbatim>\<open>ArrayMaxSize\<close> is the
  first argument of every operation. The members \<^verbatim>\<open>Array\<close> and \<^verbatim>\<open>Pointer\<close> share their
  storage (a union). The array is a block of the memory, the one at the address \<open>Array\<close>,
  so that a view can point into it; \<open>Pointer\<close> is the other member. A write to
  \<^verbatim>\<open>Pointer\<close> while the array is in use overwrites code units of the array:
  \<open>overwrite_Array\<close> leaves the cells of the array indeterminate. A read of \<^verbatim>\<open>Pointer\<close>
  while the array is in use (\<^verbatim>\<open>Capacity <= ArrayMaxSize\<close>) reads code units as a pointer:
  \<open>read_Pointer\<close> gives \<open>Indeterminate\<close> there.
\<close>

record StringStorage =
  Size :: nat
  Capacity :: nat
  Array :: addr
  Pointer :: pointer

definition GetData :: "nat \<Rightarrow> StringStorage \<Rightarrow> pointer" where
  "GetData ArrayMaxSize s = (if Capacity s > ArrayMaxSize then Pointer s else Ptr (Array s))"

definition overwrite_Array :: "nat \<Rightarrow> 'c memory \<Rightarrow> StringStorage \<Rightarrow> 'c memory" where
  "overwrite_Array ArrayMaxSize mem s =
     (if Capacity s \<le> ArrayMaxSize then mem[Array s := Live (replicate ArrayMaxSize None)]
      else mem)"

definition read_Pointer :: "nat \<Rightarrow> StringStorage \<Rightarrow> pointer" where
  "read_Pointer ArrayMaxSize s = (if Capacity s > ArrayMaxSize then Pointer s else Indeterminate)"

text \<open>
  The default constructor: \<open>Size = 0\<close>, \<open>Capacity = ArrayMaxSize\<close>, \<open>Pointer = nullptr\<close>. The
  object brings its array of \<^verbatim>\<open>ArrayMaxSize\<close> cells with it, a new block of the memory.
\<close>

definition StringStorage_new :: "nat \<Rightarrow> 'c memory \<Rightarrow> 'c memory \<times> StringStorage" where
  "StringStorage_new ArrayMaxSize mem =
     (mem @ [Live (replicate ArrayMaxSize None)],
      \<lparr>Size = 0, Capacity = ArrayMaxSize, Array = length mem, Pointer = nullptr\<rparr>)"

text \<open>
  \<^verbatim>\<open>new CharType[n]\<close> (the allocation is taken to succeed), \<^verbatim>\<open>delete[]\<close>,
  \<^verbatim>\<open>std::memmove\<close> on whole cells, \<^verbatim>\<open>std::fill_n\<close> and \<^verbatim>\<open>std::copy\<close>, which reads
  and writes one code unit after the other from the front.
\<close>

definition new_array :: "'c memory \<Rightarrow> nat \<Rightarrow> 'c memory \<times> pointer" where
  "new_array mem n = (mem @ [Live (replicate n None)], Ptr (length mem))"

definition delete_array :: "'c memory \<Rightarrow> pointer \<Rightarrow> fault + 'c memory" where
  "delete_array mem p =
     (case p of
        nullptr \<Rightarrow> Inr mem
      | Ptr a \<Rightarrow> bindF (cells_of mem p) (\<lambda>cs. Inr (mem[a := Freed]))
      | Indeterminate \<Rightarrow> Inl InvalidPointer)"

definition memmove ::
  "'c memory \<Rightarrow> pointer \<Rightarrow> nat \<Rightarrow> pointer \<Rightarrow> nat \<Rightarrow> nat \<Rightarrow> fault + 'c memory" where
  "memmove mem dst dstPos src srcPos n =
     (if n = 0 then Inr mem
      else
        bindF (cells_of mem src) (\<lambda>scs.
        bindF (cells_of mem dst) (\<lambda>dcs.
          if srcPos + n \<le> length scs \<and> dstPos + n \<le> length dcs
          then (case dst of
                  Ptr a \<Rightarrow>
                    Inr (mem[a := Live (take dstPos dcs @ take n (drop srcPos scs)
                                          @ drop (dstPos + n) dcs)])
                | _ \<Rightarrow> Inl InvalidPointer)
          else Inl OutOfBounds)))"

fun fill_n :: "'c memory \<Rightarrow> pointer \<Rightarrow> nat \<Rightarrow> nat \<Rightarrow> 'c \<Rightarrow> fault + 'c memory" where
  "fill_n mem p i 0 v = Inr mem"
| "fill_n mem p i (Suc n) v = bindF (store mem p i v) (\<lambda>mem'. fill_n mem' p (Suc i) n v)"

fun copy ::
  "'c memory \<Rightarrow> pointer \<Rightarrow> nat \<Rightarrow> nat \<Rightarrow> pointer \<Rightarrow> nat \<Rightarrow> fault + 'c memory" where
  "copy mem src first 0 dst d = Inr mem"
| "copy mem src first (Suc n) dst d =
     bindF (load mem src first) (\<lambda>x.
     bindF (store mem dst d x) (\<lambda>mem'.
       copy mem' src (Suc first) n dst (Suc d)))"

text \<open>
  \<^verbatim>\<open>Reserve\<close>. The scope guard deletes \<^verbatim>\<open>newBuffer\<close> when the block is left; after the
  \<^verbatim>\<open>swap\<close> that is the old \<^verbatim>\<open>Pointer\<close>, or \<^verbatim>\<open>nullptr\<close> when the array was in use.
\<close>

definition Reserve ::
  "nat \<Rightarrow> 'c::zero memory \<Rightarrow> StringStorage \<Rightarrow> nat \<Rightarrow> fault + 'c memory \<times> StringStorage" where
  "Reserve ArrayMaxSize mem s newCapacity =
     (if newCapacity \<le> Capacity s then Inr (mem, s)
      else if newCapacity > ArrayMaxSize then
        (let (mem1, newBuffer) = new_array mem newCapacity in
         bindF (if Size s > 0
                then bindF (memmove mem1 newBuffer 0 (GetData ArrayMaxSize s) 0 (Size s))
                       (\<lambda>m. store m newBuffer (Size s) 0)
                else Inr mem1) (\<lambda>mem2.
         let mem3 = overwrite_Array ArrayMaxSize mem2 s;
             old = (if Capacity s \<le> ArrayMaxSize then nullptr else Pointer s);
             s' = s\<lparr>Pointer := newBuffer, Capacity := newCapacity\<rparr>
         in bindF (delete_array mem3 old) (\<lambda>mem4. Inr (mem4, s'))))
      else Inr (mem, s))"

definition Resize ::
  "nat \<Rightarrow> 'c::zero memory \<Rightarrow> StringStorage \<Rightarrow> nat \<Rightarrow> fault + 'c memory \<times> StringStorage" where
  "Resize ArrayMaxSize mem s newSize =
     bindF (if newSize \<ge> max ArrayMaxSize (Capacity s)
            then Reserve ArrayMaxSize mem s (Grow newSize)
            else Inr (mem, s)) (\<lambda>(mem1, s1).
     bindF (fill_n mem1 (GetData ArrayMaxSize s1) (Size s1) (newSize - Size s1) 0) (\<lambda>mem2.
     let s2 = s1\<lparr>Size := newSize\<rparr> in
     bindF (store mem2 (GetData ArrayMaxSize s2) newSize 0) (\<lambda>mem3.
       if Capacity s2 > Size s2 then Inr (mem3, s2) else Inl AssertionFailed)))"

text \<open>\<^verbatim>\<open>Assign(const CharType* str, size_t length)\<close>, the copy of a range of code units.\<close>

definition Assign_ptr ::
  "nat \<Rightarrow> 'c::zero memory \<Rightarrow> StringStorage \<Rightarrow> pointer \<Rightarrow> nat \<Rightarrow>
    fault + 'c memory \<times> StringStorage" where
  "Assign_ptr ArrayMaxSize mem s str len =
     bindF (Resize ArrayMaxSize mem s len) (\<lambda>(mem1, s1).
     bindF (memmove mem1 (GetData ArrayMaxSize s1) 0 str 0 len) (\<lambda>mem2. Inr (mem2, s1)))"

text \<open>
  \<^verbatim>\<open>Assign(StringStorage<CharType, OtherArrayMaxSize>&& other)\<close>, the move assignment. The
  result holds the memory, this storage and the other one.
\<close>

definition Assign_move ::
  "nat \<Rightarrow> nat \<Rightarrow> 'c::zero memory \<Rightarrow> StringStorage \<Rightarrow> StringStorage \<Rightarrow>
    fault + 'c memory \<times> StringStorage \<times> StringStorage" where
  "Assign_move ArrayMaxSize OtherArrayMaxSize mem s other =
     (if Capacity other > OtherArrayMaxSize \<and> Size other > ArrayMaxSize then
        Inr (overwrite_Array ArrayMaxSize mem s,
             s\<lparr>Pointer := read_Pointer OtherArrayMaxSize other,
               Capacity := Capacity other, Size := Size other\<rparr>,
             other\<lparr>Pointer := read_Pointer ArrayMaxSize s\<rparr>)
      else
        bindF (Assign_ptr ArrayMaxSize mem s (GetData OtherArrayMaxSize other) (Size other))
          (\<lambda>(mem1, s1). Inr (mem1, s1, other)))"

subsection \<open>String\<close>

text \<open>
  A \<^verbatim>\<open>String\<close> is its member \<^verbatim>\<open>m_Storage\<close>, a storage with
  \<^verbatim>\<open>ArrayMaxSize = MaxShortStringSize = 31\<close>.
\<close>

definition MaxShortStringSize :: nat where
  "MaxShortStringSize = 31"

definition String_new :: "'c memory \<Rightarrow> 'c memory \<times> StringStorage" where
  "String_new mem = StringStorage_new MaxShortStringSize mem"

definition String_Resize ::
  "'c::zero memory \<Rightarrow> StringStorage \<Rightarrow> nat \<Rightarrow> fault + 'c memory \<times> StringStorage" where
  "String_Resize mem s newSize = Resize MaxShortStringSize mem s newSize"

definition ResizeMore ::
  "'c::zero memory \<Rightarrow> StringStorage \<Rightarrow> nat \<Rightarrow> fault + 'c memory \<times> StringStorage \<times> reference" where
  "ResizeMore mem s moreSize =
     (let oldSize = Size s in
      bindF (String_Resize mem s (size_t (int oldSize + int moreSize))) (\<lambda>(mem1, s1).
        Inr (mem1, s1, (GetData MaxShortStringSize s1, oldSize))))"

definition Append_char ::
  "'c::zero memory \<Rightarrow> StringStorage \<Rightarrow> 'c \<Rightarrow> nat \<Rightarrow> fault + 'c memory \<times> StringStorage" where
  "Append_char mem s ch count =
     bindF (ResizeMore mem s count) (\<lambda>(mem1, s1, data).
     bindF (fill_n mem1 (fst data) (snd data) count ch) (\<lambda>mem2. Inr (mem2, s1)))"

definition Append ::
  "'c::zero memory \<Rightarrow> StringStorage \<Rightarrow> StringView \<Rightarrow> fault + 'c memory \<times> StringStorage" where
  "Append mem s view =
     bindF (ResizeMore mem s (GetSize view)) (\<lambda>(mem1, s1, data).
     bindF (copy mem1 (m_Base view) (m_StrBegin view) (GetSize view) (fst data) (snd data))
       (\<lambda>mem2. Inr (mem2, s1)))"

definition GetView :: "StringStorage \<Rightarrow> StringView" where
  "GetView s = StringView_of (GetData MaxShortStringSize s) (Size s)"

definition String_UncheckGet :: "StringStorage \<Rightarrow> nat \<Rightarrow> fault + reference" where
  "String_UncheckGet s index =
     (if index < Size s then Inr (GetData MaxShortStringSize s, index)
      else Inl AssertionFailed)"

definition String_Get :: "StringStorage \<Rightarrow> nat \<Rightarrow> fault + reference" where
  "String_Get s index =
     (if index \<ge> Size s then Inl (natException ''index is out of range.'')
      else String_UncheckGet s index)"

subsection \<open>Sequences of operations\<close>

text \<open>
  A sequence of \<^verbatim>\<open>Resize\<close> and \<^verbatim>\<open>Append\<close> calls on one string, run from left to right; a
  fault ends the run. \<open>requested_size\<close> is the size a call asks for when the string has
  \<open>sz\<close> code units, and \<open>sizes\<close> lists the sizes asked for along a sequence.
\<close>

datatype 'c operation = OpResize nat | OpAppendChar 'c nat | OpAppendView StringView

fun apply_operation ::
  "'c::zero memory \<times> StringStorage \<Rightarrow> 'c operation \<Rightarrow> fault + 'c memory \<times> StringStorage" where
  "apply_operation (mem, s) (OpResize n) = String_Resize mem s n"
| "apply_operation (mem, s) (OpAppendChar ch count) = Append_char mem s ch count"
| "apply_operation (mem, s) (OpAppendView view) = Append mem s view"

fun run_operations ::
  "'c::zero memory \<times> StringStorage \<Rightarrow> 'c operation list \<Rightarrow> fault + 'c memory \<times> StringStorage" where
  "run_operations st [] = Inr st"
| "run_operations st (x # xs) = bindF (apply_operation st x) (\<lambda>st'. run_operations st' xs)"

fun requested_size :: "nat \<Rightarrow> 'c operation \<Rightarrow> nat" where
  "requested_size sz (OpResize n) = n"
| "requested_size sz (OpAppendChar ch count) = sz + count"
| "requested_size sz (OpAppendView view) = sz + GetSize view"

fun sizes :: "nat \<Rightarrow> 'c operation list \<Rightarrow> nat list" where
  "sizes sz [] = []"
| "sizes sz (x # xs) = requested_size sz x # sizes (requested_size sz x) xs"

section \<open>Well-formed storage\<close>

text \<open>
  The states the storage operations are meant for. \<open>block_length\<close> is the number of cells
  of the live block a pointer holds. A storage is well formed when \<open>Size < Capacity\<close>, its
  array is a live block of \<open>ArrayMaxSize\<close> cells, and either \<open>Capacity = ArrayMaxSize\<close> or
  \<open>Pointer\<close> holds a live block of \<open>Capacity\<close> cells. It owns its array and, when
  \<open>Capacity > ArrayMaxSize\<close>, the block of \<open>Pointer\<close>. A view is readable when it is empty or
  lies within a live block and all its code units are initialised.
  \<open>takes_over_buffer\<close> says that after the move assignment the destination uses the very
  buffer of the source and that nothing was allocated.
\<close>

definition block_length :: "'c memory \<Rightarrow> pointer \<Rightarrow> nat option" where
  "block_length mem p = (case cells_of mem p of Inr cs \<Rightarrow> Some (length cs) | Inl e \<Rightarrow> None)"

definition storage_ok :: "nat \<Rightarrow> 'c memory \<Rightarrow> StringStorage \<Rightarrow> bool" where
  "storage_ok ArrayMaxSize mem s =
     (Size s < Capacity s
      \<and> block_length mem (Ptr (Array s)) = Some ArrayMaxSize
      \<and> (if Capacity s > ArrayMaxSize
         then Pointer s \<noteq> Ptr (Array s) \<and> block_length mem (Pointer s) = Some (Capacity s)
         else Capacity s = ArrayMaxSize))"

definition owned :: "nat \<Rightarrow> StringStorage \<Rightarrow> addr \<Rightarrow> bool" where
  "owned ArrayMaxSize s a = (a = Array s \<or> (Capacity s > ArrayMaxSize \<and> Pointer s = Ptr a))"

definition readable :: "'c memory \<Rightarrow> StringView \<Rightarrow> bool" where
  "readable mem v =
     (GetSize v = 0 \<or>
      (case cells_of mem (m_Base v) of
         Inr cs \<Rightarrow> m_StrBegin v \<le> m_StrEnd v \<and> m_StrEnd v \<le> length cs
                   \<and> (\<forall>i\<in>{m_StrBegin v..<m_StrEnd v}. cs ! i \<noteq> None)
       | Inl e \<Rightarrow> False))"

fun operation_readable :: "'c memory \<Rightarrow> 'c operation \<Rightarrow> bool" where
  "operation_readable mem (OpAppendView view) = readable mem view"
| "operation_readable mem x = True"

definition takes_over_buffer ::
  "nat \<Rightarrow> nat \<Rightarrow> 'c::zero memory \<Rightarrow> StringStorage \<Rightarrow> StringStorage \<Rightarrow> bool" where
  "takes_over_buffer ArrayMaxSize OtherArrayMaxSize mem s other =
     (case Assign_move ArrayMaxSize OtherArrayMaxSize mem s other of
        Inr (mem', s', other') \<Rightarrow>
          GetData ArrayMaxSize s' = GetData OtherArrayMaxSize other \<and> length mem' = length mem
      | Inl e \<Rightarrow> False)"

section \<open>Borders\<close>

text \<open>
  The notions the specification of the failure table uses, written from its words. A
  proper border of length \<open>b\<close> of the prefix of length \<open>n\<close> of \<open>p\<close>: the first \<open>b\<close> code
  units of the prefix are also its last \<open>b\<close>, and \<open>b < n\<close>. \<open>longest_border p n\<close> is the
  length of the longest one. \<open>strong_border p i\<close> is the length of the longest proper
  border \<open>b\<close> of \<open>p[0..i]\<close> with \<open>p[b] \<noteq> p[i + 1]\<close>, and \<open>0\<close> when there is none.
  \<open>table_inv\<close> is the invariant of the loop that fills the table.
\<close>

definition is_border :: "'c list \<Rightarrow> nat \<Rightarrow> nat \<Rightarrow> bool" where
  "is_border p n b = (b < n \<and> n \<le> length p \<and> take b p = take b (drop (n - b) p))"

definition longest_border :: "'c list \<Rightarrow> nat \<Rightarrow> nat" where
  "longest_border p n = last (0 # filter (is_border p n) [0..<n])"

definition strong_border :: "'c list \<Rightarrow> nat \<Rightarrow> nat" where
  "strong_border p i =
     last (0 # filter (\<lambda>b. is_border p (Suc i) b \<and> p ! b \<noteq> p ! Suc i) [0..<Suc i])"

definition table_inv :: "'c list \<Rightarrow> nat \<Rightarrow> nat \<Rightarrow> table \<Rightarrow> bool" where
  "table_inv p pos cand t =
     (length t = length p - 1
      \<and> (\<forall>i<pos. t ! i = Some (strong_border p i))
      \<and> is_border p pos cand
      \<and> (\<forall>b. is_border p pos b \<and> p ! b = p ! pos \<longrightarrow> b \<le> cand))"

section \<open>A reference search\<close>

text \<open>
  The naive search the specification compares \<^verbatim>\<open>Find\<close> with, written from its words:
  the smallest offset at or after \<open>b\<close> at which the pattern occurs in the source, or
  \<open>npos\<close> when it occurs nowhere.
\<close>

definition occurs_at :: "'c list \<Rightarrow> 'c list \<Rightarrow> nat \<Rightarrow> bool" where
  "occurs_at src pat i = (i + length pat \<le> length src \<and> take (length pat) (drop i src) = pat)"

definition naive_find :: "'c list \<Rightarrow> 'c list \<Rightarrow> nat \<Rightarrow> nat" where
  "naive_find src pat b =
     (case filter (occurs_at src pat) [b..<Suc (length src)] of [] \<Rightarrow> npos | i # _ \<Rightarrow> i)"

section \<open>Properties\<close>

subsection \<open>Arithmetic of the conversions\<close>

lemma size_t_id: "0 \<le> i \<Longrightarrow> i < 2 ^ 64 \<Longrightarrow> size_t i = nat i"
  by (simp add: size_t_def)

lemma size_t_lt: "size_t i < 2 ^ 64"
  by (simp add: size_t_def nat_less_iff)

lemma GetSize_lt: "GetSize v < 2 ^ 64"
  using size_t_lt [of "int (m_StrEnd v) - int (m_StrBegin v)"] by (simp add: GetSize_def)

lemma ApplyOffset_resolved:
  assumes "sz < 2 ^ 64" "- (int sz + 1) \<le> offset" "offset \<le> int sz"
  shows "ApplyOffset offset sz = Inr (nat (if offset < 0 then int sz + 1 + offset else offset))"
proof (cases "offset < 0")
  case True
  have a: "size_t offset = nat (2 ^ 64 + offset)"
  proof -
    have "offset mod 2 ^ 64 = 2 ^ 64 + offset"
      using True assms by (intro int_mod_pos_eq [where q = "-1"]) auto
    then show ?thesis by (simp add: size_t_def)
  qed
  have b: "size_t (int (nat (2 ^ 64 + offset)) + (int sz + 1)) = nat (int sz + 1 + offset)"
  proof -
    have "(int (nat (2 ^ 64 + offset)) + (int sz + 1)) mod 2 ^ 64 = int sz + 1 + offset"
      using True assms by (intro int_mod_pos_eq [where q = "1"]) auto
    then show ?thesis by (simp add: size_t_def)
  qed
  have c: "nat (int sz + 1 + offset) \<le> sz" using True assms by linarith
  show ?thesis unfolding ApplyOffset_def Let_def a b using True c by simp
next
  case False
  then show ?thesis using assms by (simp add: ApplyOffset_def size_t_id Let_def)
qed

subsection \<open>Slice\<close>

text \<open>
  C1, as the specification states it: \<^verbatim>\<open>Slice(beginOffset, endOffset)\<close> resolves both
  offsets against the size of the view and returns the view between the two resolved
  positions, both measured from the beginning of the view; for \<^verbatim>\<open>"abcdef"\<close>,
  \<^verbatim>\<open>Slice(-3, -1)\<close> yields \<^verbatim>\<open>"de"\<close>. On the code this fails: the offsets \<open>-3\<close> and \<open>-1\<close>
  resolve to \<open>4\<close> and \<open>6\<close>, and the end of the result is \<open>m_StrEnd + 6\<close>, position \<open>12\<close>
  of an array of six code units. Reading the result runs out of the array, and it is not
  \<^verbatim>\<open>"de"\<close>.
\<close>

theorem Slice_abcdef_counterexample:
  "Slice (StringView_of (Ptr 0) 6) (- 3) (- 1)
     = Inr \<lparr>m_Base = Ptr 0, m_StrBegin = 4, m_StrEnd = 12\<rparr>
   \<and> bindF (Slice (StringView_of (Ptr 0) 6) (- 3) (- 1))
         (contents [Live (map Some ''abcdef'')]) \<noteq> Inr ''de''"
  by code_simp

text \<open>
  C1, amended: for offsets between \<open>-(size + 1)\<close> and \<open>size\<close>, \<^verbatim>\<open>ApplyOffset\<close> resolves a
  negative offset \<open>o\<close> to \<open>size + 1 + o\<close> (so \<open>-1\<close> is the position one past the end, \<open>-2\<close>
  the one before it) and a non-negative offset to itself, and \<^verbatim>\<open>Slice\<close> returns a view of
  the same array that begins at the resolved begin position, measured from the beginning
  of the view. Where the result ends is left open.
\<close>

theorem Slice_resolves_begin:
  assumes "- (int (GetSize v) + 1) \<le> b" "b \<le> int (GetSize v)"
      and "- (int (GetSize v) + 1) \<le> e" "e \<le> int (GetSize v)"
  shows "ApplyOffset b (GetSize v) = Inr (nat (if b < 0 then int (GetSize v) + 1 + b else b))
       \<and> ApplyOffset e (GetSize v) = Inr (nat (if e < 0 then int (GetSize v) + 1 + e else e))
       \<and> (\<exists>v'. Slice v b e = Inr v' \<and> m_Base v' = m_Base v
              \<and> m_StrBegin v' =
                  m_StrBegin v + nat (if b < 0 then int (GetSize v) + 1 + b else b))"
  using ApplyOffset_resolved [OF GetSize_lt assms(1,2)]
        ApplyOffset_resolved [OF GetSize_lt assms(3,4)]
  by (simp add: Slice_def bindF_def Let_def)

text \<open>
  The theorem at the six code units of \<^verbatim>\<open>"abcdef"\<close> with the offsets \<open>-3\<close> and \<open>-1\<close>: they
  resolve to the positions \<open>4\<close> and \<open>6\<close>, and the result begins at position \<open>4\<close>.
\<close>

theorem Slice_resolves_begin_witness:
  "ApplyOffset (- 3) (GetSize (StringView_of (Ptr 0) 6)) = Inr 4
   \<and> ApplyOffset (- 1) (GetSize (StringView_of (Ptr 0) 6)) = Inr 6
   \<and> (\<exists>v'. Slice (StringView_of (Ptr 0) 6) (- 3) (- 1) = Inr v' \<and> m_Base v' = Ptr 0
          \<and> m_StrBegin v' = 4)"
  using Slice_resolves_begin [of "StringView_of (Ptr 0) 6" "- 3" "- 1"]
  by (simp add: StringView_of_def GetSize_def size_t_def)

subsection \<open>Search for a run of one character\<close>

text \<open>
  C2: \<^verbatim>\<open>FindCharRepeat(c, repeatCount, nBegin)\<close> returns the offset, counted from the
  beginning of the view, of the first run of \<open>repeatCount\<close> copies of \<open>c\<close> at or after the
  resolved begin, and \<^verbatim>\<open>Find(c, nBegin)\<close> is the case \<open>repeatCount = 1\<close>. The code returns
  the distance from the match to the end of the view: in \<^verbatim>\<open>"ab"\<close> the character \<open>a\<close> is
  at offset \<open>0\<close>, and the search returns \<open>2\<close>; in \<^verbatim>\<open>"xaab"\<close> the run \<^verbatim>\<open>"aa"\<close> starts at offset
  \<open>1\<close>, and the search returns \<open>3\<close>.
\<close>

theorem FindChar_returns_distance_to_end:
  "contents [Live (map Some ''ab'')] (StringView_of (Ptr 0) 2) = Inr ''ab''
   \<and> FindChar [Live (map Some ''ab'')] (StringView_of (Ptr 0) 2) (CHR ''a'') 0 = Inr 2
   \<and> FindCharRepeat [Live (map Some ''ab'')] (StringView_of (Ptr 0) 2) (CHR ''a'') 1 0 = Inr 2
   \<and> FindCharRepeat [Live (map Some ''xaab'')] (StringView_of (Ptr 0) 4) (CHR ''a'') 2 0 = Inr 3"
  by code_simp

text \<open>
  C10: every call that \<^verbatim>\<open>FindCharRepeat\<close> forwards to \<^verbatim>\<open>SearchCharRepeat\<close> satisfies the
  assertions of the helper, also when the window is exactly \<open>repeatCount\<close> long. The
  helper asserts that the window is strictly longer than \<open>repeatCount\<close>, and the guards
  of \<^verbatim>\<open>FindCharRepeat\<close> let a window of that length through: the search for one
  character in a view of one character fails the assertion.
\<close>

theorem FindCharRepeat_fails_assertion:
  "SearchCharRepeat [Live (map Some ''a'')] (Ptr 0) 0 1 (CHR ''a'') 1 = Inl AssertionFailed
   \<and> FindCharRepeat [Live (map Some ''a'')] (StringView_of (Ptr 0) 1) (CHR ''a'') 1 0
       = Inl AssertionFailed"
  by code_simp

subsection \<open>Compare\<close>

text \<open>
  C3: \<^verbatim>\<open>Compare\<close> orders two views lexicographically, is zero exactly for equal
  sequences, makes a strict prefix less than the longer view, and the operators
  \<^verbatim>\<open><\<close>, \<^verbatim>\<open>>\<close>, \<^verbatim>\<open><=\<close>, \<^verbatim>\<open>>=\<close> agree with it. The loop of the code stops when either
  view is exhausted and returns \<open>0\<close>: \<^verbatim>\<open>"a"\<close> against \<^verbatim>\<open>"ab"\<close> compares equal, \<^verbatim>\<open>"a" < "ab"\<close>
  is false and \<^verbatim>\<open>"a" >= "ab"\<close> is true.
\<close>

theorem Compare_prefix_is_zero:
  "Compare [Live (map Some ''a''), Live (map Some ''ab'')]
     (StringView_of (Ptr 0) 1) (StringView_of (Ptr 1) 2) = Inr 0
   \<and> op_less [Live (map Some ''a''), Live (map Some ''ab'')]
       (StringView_of (Ptr 0) 1) (StringView_of (Ptr 1) 2) = Inr False
   \<and> op_greater_eq [Live (map Some ''a''), Live (map Some ''ab'')]
       (StringView_of (Ptr 0) 1) (StringView_of (Ptr 1) 2) = Inr True"
  by code_simp

subsection \<open>Appending a string to itself\<close>

text \<open>
  C5: appending to a string a view of its own content doubles the content, whatever the
  size, also when the append makes the buffer grow. \<^verbatim>\<open>Append\<close> resizes first and copies
  from the view afterwards. A string of 32 code units lives in a heap buffer of capacity
  64; appending its own view asks for size 64, \<^verbatim>\<open>Reserve\<close> moves the content to a new
  buffer and deletes the old one, and the copy then reads the view, which still points
  into the deleted buffer. (Without a reallocation the append is right: \<^verbatim>\<open>"ab"\<close> becomes
  \<^verbatim>\<open>"abab"\<close>.)
\<close>

theorem Append_own_view_reads_deleted_buffer:
  "(case String_new ([] :: char memory) of (mem, s) \<Rightarrow>
      bindF (Append_char mem s (CHR ''a'') 1) (\<lambda>(mem, s).
      bindF (Append_char mem s (CHR ''b'') 1) (\<lambda>(mem, s).
      bindF (Append mem s (GetView s)) (\<lambda>(mem, s). contents mem (GetView s)))))
   = Inr ''abab''
   \<and> (case String_new ([] :: char memory) of (mem, s) \<Rightarrow>
      bindF (Append_char mem s (CHR ''a'') 32) (\<lambda>(mem, s).
      bindF (Append mem s (GetView s)) (\<lambda>(mem, s). contents mem (GetView s))))
   = Inl InvalidPointer"
  by code_simp

subsection \<open>Checked access\<close>

lemma load_range_nth:
  "load_range mem p b n = Inr xs \<Longrightarrow> length xs = n \<and> (\<forall>i<n. load mem p (b + i) = Inr (xs ! i))"
proof (induction n arbitrary: b xs)
  case 0
  then show ?case by simp
next
  case (Suc n)
  from Suc.prems obtain x ys where x: "load mem p b = Inr x"
    and ys: "load_range mem p (Suc b) n = Inr ys" and xs: "xs = x # ys"
    by (auto simp: bindF_def split: sum.splits)
  from Suc.IH [OF ys] have len: "length ys = n"
    and nth: "\<And>i. i < n \<Longrightarrow> load mem p (Suc b + i) = Inr (ys ! i)" by auto
  show ?case
  proof (intro conjI allI impI)
    show "length xs = Suc n" using len xs by simp
  next
    fix i assume "i < Suc n"
    then show "load mem p (b + i) = Inr (xs ! i)"
      using x nth [of "i - 1"] xs by (cases i) auto
  qed
qed

text \<open>
  C9: the checked accessor \<^verbatim>\<open>Get(i)\<close> of a view and of a string throws the out-of-range
  exception, with its message, if and only if \<open>i\<close> is at least the size; no other fault
  comes out of it; for \<open>i\<close> below the size it returns a reference to the \<open>i\<close>-th code
  unit, and reading through the reference gives the \<open>i\<close>-th code unit of the content.
  \<^verbatim>\<open>Get\<close> is a function of the object alone and returns nothing but the reference: the
  object is as it was.
\<close>

theorem Get_checked:
  "((\<exists>msg. Get v i = Inl (natException msg)) \<longleftrightarrow> GetSize v \<le> i)
   \<and> (\<forall>e. Get v i = Inl e \<longrightarrow> e = natException ''Pos is out of range.'')
   \<and> (i < GetSize v \<longrightarrow> Get v i = Inr (m_Base v, m_StrBegin v + i))
   \<and> (i < GetSize v \<and> contents mem v = Inr xs \<longrightarrow> bindF (Get v i) (deref mem) = Inr (xs ! i))
   \<and> ((\<exists>msg. String_Get s i = Inl (natException msg)) \<longleftrightarrow> Size s \<le> i)
   \<and> (\<forall>e. String_Get s i = Inl e \<longrightarrow> e = natException ''index is out of range.'')
   \<and> (i < Size s \<longrightarrow> String_Get s i = Inr (GetData MaxShortStringSize s, i))
   \<and> (i < Size s \<and> Size s < 2 ^ 64 \<and> contents mem (GetView s) = Inr ys
        \<longrightarrow> bindF (String_Get s i) (deref mem) = Inr (ys ! i))"
proof -
  have v: "bindF (Get v i) (deref mem) = Inr (xs ! i)"
    if "i < GetSize v" "contents mem v = Inr xs"
    using load_range_nth [OF that(2) [unfolded contents_def]] that(1)
    by (simp add: Get_def UncheckGet_def bindF_def deref_def)
  have s: "bindF (String_Get s i) (deref mem) = Inr (ys ! i)"
    if "i < Size s" "Size s < 2 ^ 64" "contents mem (GetView s) = Inr ys"
  proof -
    have "GetSize (GetView s) = Size s"
      using that(2) by (simp add: GetView_def StringView_of_def GetSize_def size_t_id)
    then have "load_range mem (GetData MaxShortStringSize s) 0 (Size s) = Inr ys"
      using that(3) by (simp add: contents_def GetView_def StringView_of_def)
    from load_range_nth [OF this] that(1) show ?thesis
      by (simp add: String_Get_def String_UncheckGet_def bindF_def deref_def)
  qed
  show ?thesis
    using v s by (auto simp: Get_def UncheckGet_def String_Get_def String_UncheckGet_def)
qed

text \<open>
  The theorem at the view and at the string of the three code units \<^verbatim>\<open>"abc"\<close>, with the
  index \<open>1\<close>, which is in range, and the index \<open>3\<close>, which is not.
\<close>

theorem Get_checked_witness:
  "Get (StringView_of (Ptr 0) 3) 1 = Inr (Ptr 0, 1)
   \<and> bindF (Get (StringView_of (Ptr 0) 3) 1) (deref [Live (map Some ''abc'')]) = Inr (CHR ''b'')
   \<and> Get (StringView_of (Ptr 0) 3) 3 = Inl (natException ''Pos is out of range.'')
   \<and> String_Get \<lparr>Size = 3, Capacity = 31, Array = 0, Pointer = nullptr\<rparr> 1 = Inr (Ptr 0, 1)
   \<and> bindF (String_Get \<lparr>Size = 3, Capacity = 31, Array = 0, Pointer = nullptr\<rparr> 1)
        (deref [Live (map Some ''abc'')]) = Inr (CHR ''b'')
   \<and> String_Get \<lparr>Size = 3, Capacity = 31, Array = 0, Pointer = nullptr\<rparr> 3
        = Inl (natException ''index is out of range.'')"
proof -
  have c: "contents [Live (map Some ''abc'')] (StringView_of (Ptr 0) 3) = Inr ''abc''"
    by code_simp
  have d: "contents [Live (map Some ''abc'')]
             (GetView \<lparr>Size = 3, Capacity = 31, Array = 0, Pointer = nullptr\<rparr>) = Inr ''abc''"
    by code_simp
  have g: "GetSize (StringView_of (Ptr 0) 3) = 3" by code_simp
  show ?thesis
    using Get_checked [of "StringView_of (Ptr 0) 3" 1 "[Live (map Some ''abc'')]" "''abc''"
            "\<lparr>Size = 3, Capacity = 31, Array = 0, Pointer = nullptr\<rparr>" "''abc''"]
          Get_checked [of "StringView_of (Ptr 0) 3" 3 "[Live (map Some ''abc'')]" "''abc''"
            "\<lparr>Size = 3, Capacity = 31, Array = 0, Pointer = nullptr\<rparr>" "''abc''"]
          c d g
    by (auto simp: GetData_def MaxShortStringSize_def StringView_of_def)
qed

subsection \<open>Storage operations on well-formed states\<close>

lemma cells_of_Ptr: "cells_of mem (Ptr a) = Inr cs \<longleftrightarrow> a < length mem \<and> mem ! a = Live cs"
  by (auto simp: cells_of_def split: block.splits)

lemma cells_of_Inr_Ptr: "cells_of mem p = Inr cs \<Longrightarrow> \<exists>a. p = Ptr a"
  by (cases p) (auto simp: cells_of_def)

lemma block_length_Some:
  "block_length mem p = Some n \<longleftrightarrow> (\<exists>cs. cells_of mem p = Inr cs \<and> length cs = n)"
  by (auto simp: block_length_def split: sum.splits)

lemma cells_of_update_same:
  "a < length mem \<Longrightarrow> cells_of (mem[a := Live cs]) (Ptr a) = Inr cs"
  by (simp add: cells_of_def)

lemma cells_of_update_other:
  "p \<noteq> Ptr a \<Longrightarrow> cells_of (mem[a := b]) p = cells_of mem p"
  by (cases p) (auto simp: cells_of_def)

lemma cells_of_append:
  "cells_of mem p = Inr cs \<Longrightarrow> cells_of (mem @ [b]) p = Inr cs"
  by (cases p) (auto simp: cells_of_def nth_append split: if_splits block.splits)

lemma cells_of_append_new:
  "cells_of (mem @ [Live cs]) (Ptr (length mem)) = Inr cs"
  by (simp add: cells_of_def)

lemma store_ok:
  "cells_of mem (Ptr a) = Inr cs \<Longrightarrow> i < length cs \<Longrightarrow>
   store mem (Ptr a) i v = Inr (mem[a := Live (cs[i := Some v])])"
  by (simp add: store_def bindF_def)

lemma fill_n_ok:
  "cells_of mem (Ptr a) = Inr cs \<Longrightarrow> i + k \<le> length cs \<Longrightarrow>
   \<exists>cs'. fill_n mem (Ptr a) i k v = Inr (mem[a := Live cs']) \<and> length cs' = length cs"
proof (induction k arbitrary: mem cs i)
  case 0
  then have "mem[a := Live cs] = mem" by (simp add: cells_of_Ptr list_update_same_conv)
  then show ?case by (intro exI [of _ cs]) simp
next
  case (Suc k)
  have a: "a < length mem" using Suc.prems(1) by (simp add: cells_of_Ptr)
  have st: "store mem (Ptr a) i v = Inr (mem[a := Live (cs[i := Some v])])"
    using Suc.prems by (intro store_ok) auto
  have c: "cells_of (mem[a := Live (cs[i := Some v])]) (Ptr a) = Inr (cs[i := Some v])"
    using a by (rule cells_of_update_same)
  from Suc.IH [OF c, of "Suc i"] Suc.prems(2)
  obtain cs' where "fill_n (mem[a := Live (cs[i := Some v])]) (Ptr a) (Suc i) k v
      = Inr (mem[a := Live (cs[i := Some v]), a := Live cs'])" "length cs' = length cs"
    by auto
  then show ?case using st by (intro exI [of _ cs']) (simp add: bindF_def)
qed

lemma copy_ok:
  assumes "cells_of mem (Ptr b) = Inr scs" "cells_of mem (Ptr a) = Inr dcs" "a \<noteq> b"
      and "first + n \<le> length scs" "\<forall>i<n. scs ! (first + i) \<noteq> None" "d + n \<le> length dcs"
  shows "\<exists>cs'. copy mem (Ptr b) first n (Ptr a) d = Inr (mem[a := Live cs'])
            \<and> length cs' = length dcs"
  using assms
proof (induction n arbitrary: mem dcs first d)
  case 0
  then have "mem[a := Live dcs] = mem" by (simp add: cells_of_Ptr list_update_same_conv)
  then show ?case by (intro exI [of _ dcs]) simp
next
  case (Suc n)
  have a: "a < length mem" using Suc.prems(2) by (simp add: cells_of_Ptr)
  from Suc.prems(5) [rule_format, of 0] obtain x where x: "scs ! first = Some x" by auto
  have ld: "load mem (Ptr b) first = Inr x"
    using Suc.prems(1,4) x by (simp add: load_def bindF_def)
  have st: "store mem (Ptr a) d x = Inr (mem[a := Live (dcs[d := Some x])])"
    using Suc.prems by (intro store_ok) auto
  let ?mem = "mem[a := Live (dcs[d := Some x])]"
  have c1: "cells_of ?mem (Ptr b) = Inr scs"
    using Suc.prems(1,3) by (simp add: cells_of_update_other)
  have c2: "cells_of ?mem (Ptr a) = Inr (dcs[d := Some x])"
    using a by (rule cells_of_update_same)
  have "\<exists>cs'. copy ?mem (Ptr b) (Suc first) n (Ptr a) (Suc d) = Inr (?mem[a := Live cs'])
            \<and> length cs' = length (dcs[d := Some x])"
  proof (rule Suc.IH [OF c1 c2 Suc.prems(3)])
    show "Suc first + n \<le> length scs" using Suc.prems(4) by simp
    show "\<forall>i<n. scs ! (Suc first + i) \<noteq> None"
      using Suc.prems(5) by (metis add_Suc_shift Suc_less_eq)
    show "Suc d + n \<le> length (dcs[d := Some x])" using Suc.prems(6) by simp
  qed
  then obtain cs' where "copy ?mem (Ptr b) (Suc first) n (Ptr a) (Suc d) = Inr (?mem[a := Live cs'])"
    "length cs' = length dcs" by auto
  then show ?case using ld st by (intro exI [of _ cs']) (simp add: bindF_def)
qed

lemma Grow_gt: "n + 1 < 2 ^ 64 \<Longrightarrow> n < Grow n"
proof -
  assume "n + 1 < 2 ^ 64"
  then have "size_t (int n + 1) = n + 1"
    by (subst size_t_id) (auto simp: nat_add_distrib)
  then show ?thesis by (simp add: Grow_def Let_def)
qed


lemma block_length_update:
  "cells_of mem (Ptr d) = Inr cs \<Longrightarrow> length cs' = length cs \<Longrightarrow>
   block_length (mem[d := Live cs']) p = block_length mem p"
proof (cases "p = Ptr d")
  case True
  assume c: "cells_of mem (Ptr d) = Inr cs" and l: "length cs' = length cs"
  then have "d < length mem" by (simp add: cells_of_Ptr)
  then have "cells_of (mem[d := Live cs']) (Ptr d) = Inr cs'" by (rule cells_of_update_same)
  then show ?thesis using True c l by (simp add: block_length_def)
next
  case False
  then show ?thesis by (simp add: block_length_def cells_of_update_other)
qed

lemma storage_ok_update:
  "storage_ok A mem s \<Longrightarrow> cells_of mem (Ptr d) = Inr cs \<Longrightarrow> length cs' = length cs \<Longrightarrow>
   storage_ok A (mem[d := Live cs']) s"
  by (simp add: storage_ok_def block_length_update)

lemma data_block:
  assumes "storage_ok A mem s"
  shows "\<exists>d cs. GetData A s = Ptr d \<and> owned A s d \<and> cells_of mem (Ptr d) = Inr cs
            \<and> length cs = Capacity s"
proof (cases "Capacity s > A")
  case True
  with assms obtain cs where "cells_of mem (Pointer s) = Inr cs" "length cs = Capacity s"
    by (auto simp: storage_ok_def block_length_Some)
  moreover then obtain d where "Pointer s = Ptr d" using cells_of_Inr_Ptr by blast
  ultimately show ?thesis using True by (auto simp: GetData_def owned_def)
next
  case False
  with assms show ?thesis by (auto simp: storage_ok_def block_length_Some GetData_def owned_def)
qed

lemma Reserve_grow:
  assumes ok: "storage_ok A mem s" and gt: "Capacity s < newCapacity"
  shows "\<exists>mem'. Reserve A mem s newCapacity
              = Inr (mem', s\<lparr>Pointer := Ptr (length mem), Capacity := newCapacity\<rparr>)
          \<and> length mem' = Suc (length mem)
          \<and> storage_ok A mem' (s\<lparr>Pointer := Ptr (length mem), Capacity := newCapacity\<rparr>)
          \<and> (\<forall>a<length mem. \<not> owned A s a \<longrightarrow> mem' ! a = mem ! a)"
proof -
  let ?s' = "s\<lparr>Pointer := Ptr (length mem), Capacity := newCapacity\<rparr>"
  let ?new = "Ptr (length mem)"
  let ?mem1 = "mem @ [Live (replicate newCapacity None)]"
  from ok have A: "A \<le> Capacity s" and sz: "Size s < Capacity s"
    by (auto simp: storage_ok_def split: if_splits)
  from ok obtain arr where arr: "cells_of mem (Ptr (Array s)) = Inr arr" "length arr = A"
    by (auto simp: storage_ok_def block_length_Some)
  then have arr_lt: "Array s < length mem" by (simp add: cells_of_Ptr)
  from data_block [OF ok] obtain d scs where d: "GetData A s = Ptr d" "owned A s d"
    "cells_of mem (Ptr d) = Inr scs" "length scs = Capacity s" by blast
  have d_lt: "d < length mem" using d(3) by (simp add: cells_of_Ptr)
  \<comment> \<open>the content is moved and terminated\<close>
  have "\<exists>cs2. (if Size s > 0
                then bindF (memmove ?mem1 ?new 0 (GetData A s) 0 (Size s))
                       (\<lambda>m. store m ?new (Size s) (0::'a))
                else Inr ?mem1) = Inr (mem @ [Live cs2]) \<and> length cs2 = newCapacity"
  proof (cases "Size s > 0")
    case False
    then show ?thesis by (intro exI [of _ "replicate newCapacity None"]) simp
  next
    case True
    let ?cs1 = "take (Size s) scs @ drop (Size s) (replicate newCapacity None)"
    have mm: "memmove ?mem1 ?new 0 (GetData A s) 0 (Size s) = Inr (mem @ [Live ?cs1])"
      using True d sz gt
      by (simp add: memmove_def bindF_def cells_of_append_new cells_of_append [OF d(3)])
    have len1: "length ?cs1 = newCapacity" using sz gt d(4) by simp
    have "store (mem @ [Live ?cs1]) ?new (Size s) (0::'a)
            = Inr ((mem @ [Live ?cs1])[length mem := Live (?cs1[Size s := Some 0])])"
      using sz gt len1 by (intro store_ok) (auto simp: cells_of_append_new simp del: length_append)
    then show ?thesis using True mm len1
      by (intro exI [of _ "?cs1[Size s := Some 0]"]) (simp add: bindF_def)
  qed
  then obtain cs2 where cs2: "(if Size s > 0
                then bindF (memmove ?mem1 ?new 0 (GetData A s) 0 (Size s))
                       (\<lambda>m. store m ?new (Size s) (0::'a))
                else Inr ?mem1) = Inr (mem @ [Live cs2])" and len2: "length cs2 = newCapacity"
    by blast
  let ?mem2 = "mem @ [Live cs2]"
  show ?thesis
  proof (cases "Capacity s \<le> A")
    case True
    let ?mem' = "?mem2[Array s := Live (replicate A None)]"
    have r: "Reserve A mem s newCapacity = Inr (?mem', ?s')"
      using True gt A cs2
      by (simp add: Reserve_def new_array_def bindF_def overwrite_Array_def delete_array_def)
    have bl1: "block_length ?mem' (Ptr (Array s)) = Some A"
      using arr_lt by (simp add: block_length_def cells_of_def nth_append)
    have bl2: "block_length ?mem' (Ptr (length mem)) = Some newCapacity"
      using arr_lt len2 by (simp add: block_length_def cells_of_def nth_append)
    have ok': "storage_ok A ?mem' ?s'"
      using sz gt A arr_lt bl1 bl2 True by (simp add: storage_ok_def)
    have fr: "\<forall>a<length mem. \<not> owned A s a \<longrightarrow> ?mem' ! a = mem ! a"
      by (auto simp: owned_def nth_append)
    show ?thesis using r ok' fr by (intro exI [of _ ?mem']) simp
  next
    case False
    then have P: "Pointer s = Ptr d" "d \<noteq> Array s"
      using d(1) ok by (auto simp: GetData_def storage_ok_def)
    let ?mem' = "?mem2[d := Freed]"
    have c: "cells_of ?mem2 (Ptr d) = Inr scs" using d(3) by (rule cells_of_append)
    have r: "Reserve A mem s newCapacity = Inr (?mem', ?s')"
      using False gt A cs2 P c
      by (simp add: Reserve_def new_array_def bindF_def overwrite_Array_def delete_array_def)
    have bl1: "block_length ?mem' (Ptr (Array s)) = Some A"
      using arr arr_lt P by (simp add: block_length_def cells_of_def nth_append cells_of_Ptr)
    have bl2: "block_length ?mem' (Ptr (length mem)) = Some newCapacity"
      using d_lt len2 by (simp add: block_length_def cells_of_def nth_append)
    have ok': "storage_ok A ?mem' ?s'"
      using sz gt A arr_lt bl1 bl2 False by (simp add: storage_ok_def)
    have fr: "\<forall>a<length mem. \<not> owned A s a \<longrightarrow> ?mem' ! a = mem ! a"
      using P False by (auto simp: owned_def nth_append)
    show ?thesis using r ok' fr by (intro exI [of _ ?mem']) simp
  qed
qed

lemma Resize_ok:
  assumes ok: "storage_ok A mem s" and bound: "newSize + 1 < 2 ^ 64"
  shows "\<exists>mem' s'. Resize A mem s newSize = Inr (mem', s') \<and> storage_ok A mem' s'
          \<and> Size s' = newSize \<and> Array s' = Array s
          \<and> (if newSize \<ge> Capacity s
             then Capacity s' = Grow newSize \<and> length mem' = Suc (length mem)
                  \<and> Pointer s' = Ptr (length mem)
             else Capacity s' = Capacity s \<and> length mem' = length mem
                  \<and> Pointer s' = Pointer s)
          \<and> (\<forall>a<length mem. \<not> owned A s a \<longrightarrow> mem' ! a = mem ! a)"
proof -
  from ok have A: "A \<le> Capacity s" by (auto simp: storage_ok_def split: if_splits)
  then have mx: "max A (Capacity s) = Capacity s" by simp
  \<comment> \<open>the state after the optional \<open>Reserve\<close>\<close>
  have "\<exists>mem1 s1. (if newSize \<ge> max A (Capacity s) then Reserve A mem s (Grow newSize)
                   else Inr (mem, s)) = Inr (mem1, s1)
          \<and> storage_ok A mem1 s1 \<and> Size s1 = Size s \<and> Array s1 = Array s \<and> newSize < Capacity s1
          \<and> (if newSize \<ge> Capacity s
             then Capacity s1 = Grow newSize \<and> length mem1 = Suc (length mem)
                  \<and> Pointer s1 = Ptr (length mem)
             else Capacity s1 = Capacity s \<and> length mem1 = length mem \<and> Pointer s1 = Pointer s)
          \<and> (\<forall>a<length mem. \<not> owned A s a \<longrightarrow> mem1 ! a = mem ! a)
          \<and> (\<forall>a. owned A s1 a \<longrightarrow> owned A s a \<or> a = length mem)"
  proof (cases "newSize \<ge> Capacity s")
    case True
    then have "Capacity s < Grow newSize" using Grow_gt [OF bound] by simp
    from Reserve_grow [OF ok this] True mx Grow_gt [OF bound] show ?thesis
      by (auto simp: owned_def)
  next
    case False
    then show ?thesis using ok mx by auto
  qed
  then obtain mem1 s1 where
    r1: "(if newSize \<ge> max A (Capacity s) then Reserve A mem s (Grow newSize)
          else Inr (mem, s)) = Inr (mem1, s1)"
    and ok1: "storage_ok A mem1 s1" and s1: "Size s1 = Size s" "Array s1 = Array s"
    and lt: "newSize < Capacity s1"
    and cap: "if newSize \<ge> Capacity s
             then Capacity s1 = Grow newSize \<and> length mem1 = Suc (length mem)
                  \<and> Pointer s1 = Ptr (length mem)
             else Capacity s1 = Capacity s \<and> length mem1 = length mem \<and> Pointer s1 = Pointer s"
    and fr1: "\<forall>a<length mem. \<not> owned A s a \<longrightarrow> mem1 ! a = mem ! a"
    and ow1: "\<forall>a. owned A s1 a \<longrightarrow> owned A s a \<or> a = length mem"
    by blast
  from data_block [OF ok1] obtain d cs where d: "GetData A s1 = Ptr d" "owned A s1 d"
    "cells_of mem1 (Ptr d) = Inr cs" "length cs = Capacity s1" by blast
  have d_lt: "d < length mem1" using d(3) by (simp add: cells_of_Ptr)
  have szlt: "Size s1 < Capacity s1" using ok1 by (simp add: storage_ok_def)
  have "Size s1 + (newSize - Size s1) \<le> length cs" using lt szlt d(4) by simp
  from fill_n_ok [OF d(3) this, of "0::'a"] obtain cs' where
    f: "fill_n mem1 (Ptr d) (Size s1) (newSize - Size s1) (0::'a) = Inr (mem1[d := Live cs'])"
    and len': "length cs' = length cs" by blast
  let ?s2 = "s1\<lparr>Size := newSize\<rparr>"
  have gd: "GetData A ?s2 = Ptr d" using d(1) by (auto simp: GetData_def)
  have st: "store (mem1[d := Live cs']) (Ptr d) newSize (0::'a)
              = Inr (mem1[d := Live cs', d := Live (cs'[newSize := Some 0])])"
    using d_lt lt len' d(4) by (intro store_ok) (auto simp: cells_of_update_same)
  let ?mem' = "mem1[d := Live (cs'[newSize := Some 0])]"
  have res: "Resize A mem s newSize = Inr (?mem', ?s2)"
    unfolding Resize_def r1 using f st gd d(1) lt by (simp add: bindF_def)
  have "storage_ok A ?mem' s1"
    using ok1 d(3) len' by (intro storage_ok_update [where cs = cs]) auto
  then have ok2: "storage_ok A ?mem' ?s2" using lt by (simp add: storage_ok_def)
  have fr: "\<forall>a<length mem. \<not> owned A s a \<longrightarrow> ?mem' ! a = mem ! a"
  proof (intro allI impI)
    fix a assume a: "a < length mem" "\<not> owned A s a"
    then have "a \<noteq> d" using ow1 d(2) by auto
    then show "?mem' ! a = mem ! a" using fr1 a by simp
  qed
  show ?thesis
    using res ok2 s1 cap fr by (intro exI [of _ ?mem'] exI [of _ ?s2]) (auto split: if_splits)
qed

lemma size_t_le: "0 \<le> i \<Longrightarrow> size_t i \<le> nat i"
proof -
  assume "0 \<le> i"
  then have "i mod 2 ^ 64 \<le> i" by (simp add: zmod_le_nonneg_dividend)
  then show ?thesis by (simp add: size_t_def nat_mono)
qed

lemma GetSize_le: "m_StrBegin v \<le> m_StrEnd v \<Longrightarrow> GetSize v \<le> m_StrEnd v - m_StrBegin v"
  using size_t_le [of "int (m_StrEnd v) - int (m_StrBegin v)"] by (simp add: GetSize_def)

lemma apply_operation_ok:
  fixes mem :: "'c::zero memory"
  assumes ok: "storage_ok MaxShortStringSize mem s"
      and own: "\<forall>a. owned MaxShortStringSize s a \<longrightarrow> length mem0 \<le> a"
      and len: "length mem0 \<le> length mem"
      and fr0: "\<forall>a<length mem0. mem ! a = mem0 ! a"
      and bound: "requested_size (Size s) x + 1 < 2 ^ 64"
      and rd: "operation_readable mem0 x"
  shows "\<exists>mem' s'. apply_operation (mem, s) x = Inr (mem', s')
          \<and> storage_ok MaxShortStringSize mem' s'
          \<and> (\<forall>a. owned MaxShortStringSize s' a \<longrightarrow> length mem0 \<le> a)
          \<and> (\<forall>a<length mem0. mem' ! a = mem0 ! a)
          \<and> Size s' = requested_size (Size s) x
          \<and> (if requested_size (Size s) x \<ge> Capacity s
             then Capacity s' = Grow (requested_size (Size s) x)
                  \<and> length mem' = Suc (length mem)
             else Capacity s' = Capacity s \<and> length mem' = length mem)"
proof -
  let ?M = MaxShortStringSize
  let ?n = "requested_size (Size s) x"
  from Resize_ok [OF ok bound] obtain mem1 s1 where
    r: "Resize ?M mem s ?n = Inr (mem1, s1)" and ok1: "storage_ok ?M mem1 s1"
    and s1: "Size s1 = ?n" "Array s1 = Array s"
    and cap: "if ?n \<ge> Capacity s
              then Capacity s1 = Grow ?n \<and> length mem1 = Suc (length mem)
                   \<and> Pointer s1 = Ptr (length mem)
              else Capacity s1 = Capacity s \<and> length mem1 = length mem
                   \<and> Pointer s1 = Pointer s"
    and fr1: "\<forall>a<length mem. \<not> owned ?M s a \<longrightarrow> mem1 ! a = mem ! a"
    by blast
  have own1: "\<forall>a. owned ?M s1 a \<longrightarrow> length mem0 \<le> a"
    using own len cap s1(2) by (auto simp: owned_def split: if_splits)
  have fr1': "\<forall>a<length mem0. mem1 ! a = mem0 ! a"
    using fr1 fr0 own len by (metis less_le_trans not_le)
  from data_block [OF ok1] obtain d cs where d: "GetData ?M s1 = Ptr d" "owned ?M s1 d"
    "cells_of mem1 (Ptr d) = Inr cs" "length cs = Capacity s1" by blast
  have dbase: "length mem0 \<le> d" using own1 d(2) by simp
  have szlt: "Size s1 < Capacity s1" using ok1 by (simp add: storage_ok_def)
  \<comment> \<open>any later write into the data block keeps all of this\<close>
  have after: "storage_ok ?M (mem1[d := Live cs']) s1
                \<and> (\<forall>a<length mem0. (mem1[d := Live cs']) ! a = mem0 ! a)
                \<and> length (mem1[d := Live cs']) = length mem1"
    if "length cs' = length cs" for cs'
    using storage_ok_update [OF ok1 d(3) that] fr1' dbase by auto
  show ?thesis
  proof (cases x)
    case (OpResize n)
    then show ?thesis
      using r ok1 own1 fr1' s1 cap by (auto simp: String_Resize_def split: if_splits)
  next
    case (OpAppendChar ch count)
    then have n: "?n = Size s + count" by simp
    have rm: "ResizeMore mem s count = Inr (mem1, s1, (Ptr d, Size s))"
      using r bound n d(1)
      by (simp add: ResizeMore_def String_Resize_def size_t_id bindF_def Let_def
            flip: of_nat_add)
    have "Size s + count \<le> length cs" using szlt s1(1) n d(4) by simp
    from fill_n_ok [OF d(3) this, of ch] obtain cs' where
      f: "fill_n mem1 (Ptr d) (Size s) count ch = Inr (mem1[d := Live cs'])"
      and l: "length cs' = length cs" by blast
    have "apply_operation (mem, s) x = Inr (mem1[d := Live cs'], s1)"
      using OpAppendChar rm f by (simp add: Append_char_def bindF_def)
    then show ?thesis
      using after [OF l] own1 s1 cap by (auto split: if_splits)
  next
    case (OpAppendView view)
    then have n: "?n = Size s + GetSize view" by simp
    have rm: "ResizeMore mem s (GetSize view) = Inr (mem1, s1, (Ptr d, Size s))"
      using r bound n d(1)
      by (simp add: ResizeMore_def String_Resize_def size_t_id bindF_def Let_def
            flip: of_nat_add)
    have "\<exists>cs'. copy mem1 (m_Base view) (m_StrBegin view) (GetSize view) (Ptr d) (Size s)
              = Inr (mem1[d := Live cs']) \<and> length cs' = length cs"
    proof (cases "GetSize view = 0")
      case True
      have "mem1[d := Live cs] = mem1" using d(3) by (simp add: cells_of_Ptr list_update_same_conv)
      then show ?thesis using True by (intro exI [of _ cs]) simp
    next
      case False
      with rd OpAppendView obtain scs where
        scs: "cells_of mem0 (m_Base view) = Inr scs" "m_StrBegin view \<le> m_StrEnd view"
          "m_StrEnd view \<le> length scs"
          "\<forall>i\<in>{m_StrBegin view..<m_StrEnd view}. scs ! i \<noteq> None"
        by (auto simp: readable_def split: sum.splits)
      from cells_of_Inr_Ptr [OF scs(1)] obtain b where b: "m_Base view = Ptr b" by blast
      have b0: "b < length mem0" "mem0 ! b = Live scs" using scs(1) b by (auto simp: cells_of_Ptr)
      have c1: "cells_of mem1 (Ptr b) = Inr scs"
        using b0 fr1' len cap by (auto simp: cells_of_Ptr split: if_splits)
      have ne: "d \<noteq> b" using dbase b0 by simp
      have sz: "GetSize view \<le> m_StrEnd view - m_StrBegin view" using scs(2) by (rule GetSize_le)
      have "\<exists>cs'. copy mem1 (Ptr b) (m_StrBegin view) (GetSize view) (Ptr d) (Size s)
                = Inr (mem1[d := Live cs']) \<and> length cs' = length cs"
      proof (rule copy_ok [OF c1 d(3) ne])
        show "m_StrBegin view + GetSize view \<le> length scs" using sz scs(2,3) by simp
        show "\<forall>i<GetSize view. scs ! (m_StrBegin view + i) \<noteq> None"
          using sz scs(4) by auto
        show "Size s + GetSize view \<le> length cs" using szlt s1(1) n d(4) by simp
      qed
      then show ?thesis using b by simp
    qed
    then obtain cs' where
      f: "copy mem1 (m_Base view) (m_StrBegin view) (GetSize view) (Ptr d) (Size s)
            = Inr (mem1[d := Live cs'])"
      and l: "length cs' = length cs" by blast
    have "apply_operation (mem, s) x = Inr (mem1[d := Live cs'], s1)"
      using OpAppendView rm f by (simp add: Append_def bindF_def)
    then show ?thesis
      using after [OF l] own1 s1 cap by (auto split: if_splits)
  qed
qed


lemma run_operations_ok:
  fixes mem :: "'c::zero memory"
  assumes "storage_ok MaxShortStringSize mem s"
      and "\<forall>a. owned MaxShortStringSize s a \<longrightarrow> length mem0 \<le> a"
      and "length mem0 \<le> length mem"
      and "\<forall>a<length mem0. mem ! a = mem0 ! a"
      and "\<forall>n\<in>set (sizes (Size s) xs). n + 1 < 2 ^ 64"
      and "\<forall>x\<in>set xs. operation_readable mem0 x"
  shows "\<exists>mem' s'. run_operations (mem, s) xs = Inr (mem', s')
          \<and> storage_ok MaxShortStringSize mem' s'
          \<and> Size s' = last (Size s # sizes (Size s) xs)
          \<and> Capacity s \<le> Capacity s' \<and> length mem \<le> length mem'
          \<and> (Capacity s = MaxShortStringSize \<longrightarrow>
               ((Capacity s' = MaxShortStringSize)
                  \<longleftrightarrow> (\<forall>n\<in>set (sizes (Size s) xs). n < MaxShortStringSize))
               \<and> ((length mem' = length mem)
                  \<longleftrightarrow> (\<forall>n\<in>set (sizes (Size s) xs). n < MaxShortStringSize)))"
  using assms
proof (induction xs arbitrary: mem s)
  case Nil
  then show ?case by simp
next
  case (Cons x xs)
  let ?M = MaxShortStringSize
  let ?n = "requested_size (Size s) x"
  have b: "?n + 1 < 2 ^ 64" using Cons.prems(5) by simp
  have rd: "operation_readable mem0 x" using Cons.prems(6) by simp
  from apply_operation_ok [OF Cons.prems(1-4) b rd] obtain mem1 s1 where
    ap: "apply_operation (mem, s) x = Inr (mem1, s1)"
    and ok1: "storage_ok ?M mem1 s1"
    and own1: "\<forall>a. owned ?M s1 a \<longrightarrow> length mem0 \<le> a"
    and fr1: "\<forall>a<length mem0. mem1 ! a = mem0 ! a"
    and sz1: "Size s1 = ?n"
    and cap: "if ?n \<ge> Capacity s
              then Capacity s1 = Grow ?n \<and> length mem1 = Suc (length mem)
              else Capacity s1 = Capacity s \<and> length mem1 = length mem"
    by blast
  have len1: "length mem0 \<le> length mem1" using Cons.prems(3) cap by (auto split: if_splits)
  have b1: "\<forall>n\<in>set (sizes (Size s1) xs). n + 1 < 2 ^ 64" using Cons.prems(5) sz1 by simp
  have rd1: "\<forall>x\<in>set xs. operation_readable mem0 x" using Cons.prems(6) by simp
  from Cons.IH [OF ok1 own1 len1 fr1 b1 rd1] obtain mem' s' where
    run: "run_operations (mem1, s1) xs = Inr (mem', s')"
    and ok': "storage_ok ?M mem' s'"
    and sz': "Size s' = last (Size s1 # sizes (Size s1) xs)"
    and mono: "Capacity s1 \<le> Capacity s'" "length mem1 \<le> length mem'"
    and iff: "Capacity s1 = ?M \<longrightarrow>
               ((Capacity s' = ?M) \<longleftrightarrow> (\<forall>n\<in>set (sizes (Size s1) xs). n < ?M))
               \<and> ((length mem' = length mem1) \<longleftrightarrow> (\<forall>n\<in>set (sizes (Size s1) xs). n < ?M))"
    by blast
  have g: "?n < Grow ?n" using b by (rule Grow_gt)
  have run': "run_operations (mem, s) (x # xs) = Inr (mem', s')"
    using ap run by (simp add: bindF_def)
  have size': "Size s' = last (Size s # sizes (Size s) (x # xs))" using sz' sz1 by simp
  have mono': "Capacity s \<le> Capacity s'" "length mem \<le> length mem'"
    using mono cap g by (auto split: if_splits)
  have iff': "((Capacity s' = ?M) \<longleftrightarrow> (\<forall>n\<in>set (sizes (Size s) (x # xs)). n < ?M))
               \<and> ((length mem' = length mem) \<longleftrightarrow> (\<forall>n\<in>set (sizes (Size s) (x # xs)). n < ?M))"
    if eq: "Capacity s = ?M"
  proof (cases "?n < ?M")
    case True
    then have "Capacity s1 = ?M" "length mem1 = length mem" using cap eq by auto
    then show ?thesis using iff True sz1 by simp
  next
    case False
    then have "Capacity s1 = Grow ?n" "length mem1 = Suc (length mem)" using cap eq by auto
    then have "Capacity s' \<noteq> ?M" "length mem' \<noteq> length mem" using mono g False by auto
    then show ?thesis using False by simp
  qed
  show ?case using run' ok' size' mono' iff' by blast
qed

lemma String_new_ok:
  "String_new mem0 = (mem, s) \<Longrightarrow>
   storage_ok MaxShortStringSize mem s \<and> (\<forall>a. owned MaxShortStringSize s a \<longrightarrow> length mem0 \<le> a)
   \<and> length mem = Suc (length mem0) \<and> (\<forall>a<length mem0. mem ! a = mem0 ! a)
   \<and> Size s = 0 \<and> Capacity s = MaxShortStringSize"
  by (auto simp: String_new_def StringStorage_new_def storage_ok_def owned_def block_length_def
        cells_of_def nth_append MaxShortStringSize_def)

subsection \<open>Growth of a string\<close>

text \<open>
  C6, as the specification states it: after any sequence of \<^verbatim>\<open>Append\<close> and \<^verbatim>\<open>Resize\<close>
  calls \<open>Capacity > Size\<close> holds, and the string is inline, no heap buffer ever allocated,
  if and only if its size has never exceeded 31. On the code the second part fails at
  size 31: the inline array has 31 cells, one of them for the terminator, and
  \<^verbatim>\<open>Resize(31)\<close> on a new string allocates a heap buffer of capacity 48.
\<close>

theorem String_growth_counterexample:
  "map_sum id snd (run_operations (String_new ([] :: char memory)) [OpResize 31])
     = Inr \<lparr>Size = 31, Capacity = 48, Array = 0, Pointer = Ptr 1\<rparr>
   \<and> map_sum id (length \<circ> fst) (run_operations (String_new ([] :: char memory)) [OpResize 31])
     = Inr 2
   \<and> length (fst (String_new ([] :: char memory))) = 1"
  by code_simp

text \<open>
  C6, amended: for every sequence of \<^verbatim>\<open>Resize\<close> and \<^verbatim>\<open>Append\<close> calls on a new string, in
  which every requested size is below \<open>npos = 2 ^ 64 - 1\<close> and every appended view is
  readable in the memory the string was created in (so it is no view of the string
  itself), the run ends without a fault, \<open>Capacity > Size\<close> holds afterwards, and the string
  is inline, with no heap buffer ever allocated, if and only if no requested size has
  exceeded 30.
\<close>

theorem String_growth_invariant:
  fixes mem0 :: "'c::zero memory"
  assumes "\<forall>n\<in>set (sizes 0 xs). n + 1 < 2 ^ 64"
      and "\<forall>x\<in>set xs. operation_readable mem0 x"
  shows "\<exists>mem s. run_operations (String_new mem0) xs = Inr (mem, s)
          \<and> Size s < Capacity s
          \<and> Size s = last (0 # sizes 0 xs)
          \<and> ((Capacity s \<le> MaxShortStringSize) \<longleftrightarrow> (\<forall>n\<in>set (sizes 0 xs). n \<le> 30))
          \<and> ((GetData MaxShortStringSize s = Ptr (Array s)) \<longleftrightarrow> (\<forall>n\<in>set (sizes 0 xs). n \<le> 30))
          \<and> ((length mem = length (fst (String_new mem0))) \<longleftrightarrow> (\<forall>n\<in>set (sizes 0 xs). n \<le> 30))"
proof -
  let ?M = MaxShortStringSize
  obtain mem1 s1 where new: "String_new mem0 = (mem1, s1)" by (cases "String_new mem0")
  from String_new_ok [OF new] have ok: "storage_ok ?M mem1 s1"
    and own: "\<forall>a. owned ?M s1 a \<longrightarrow> length mem0 \<le> a"
    and len: "length mem0 \<le> length mem1"
    and fr: "\<forall>a<length mem0. mem1 ! a = mem0 ! a"
    and z: "Size s1 = 0" "Capacity s1 = ?M" by auto
  have b: "\<forall>n\<in>set (sizes (Size s1) xs). n + 1 < 2 ^ 64" using assms(1) z by simp
  from run_operations_ok [OF ok own len fr b assms(2)] z obtain mem s where
    run: "run_operations (mem1, s1) xs = Inr (mem, s)"
    and ok': "storage_ok ?M mem s"
    and sz: "Size s = last (0 # sizes 0 xs)"
    and mono: "?M \<le> Capacity s"
    and iff: "(Capacity s = ?M) \<longleftrightarrow> (\<forall>n\<in>set (sizes 0 xs). n < ?M)"
             "(length mem = length mem1) \<longleftrightarrow> (\<forall>n\<in>set (sizes 0 xs). n < ?M)"
    by auto
  have lt: "Size s < Capacity s" using ok' by (simp add: storage_ok_def)
  have M: "\<And>n. n < ?M \<longleftrightarrow> n \<le> 30" by (auto simp: MaxShortStringSize_def)
  have ptr: "Pointer s \<noteq> Ptr (Array s)" if "Capacity s > ?M"
    using ok' that by (simp add: storage_ok_def)
  have gd: "(GetData ?M s = Ptr (Array s)) \<longleftrightarrow> Capacity s \<le> ?M"
    using ptr by (auto simp: GetData_def)
  have c: "Capacity s \<le> ?M \<longleftrightarrow> Capacity s = ?M" using mono by auto
  show ?thesis
    using run lt sz iff gd c new unfolding M by (intro exI [of _ mem] exI [of _ s]) simp
qed

text \<open>
  The theorem at a run that appends two characters, appends the view \<^verbatim>\<open>"xyz"\<close> and resizes
  to 40: the sizes are 2, 5 and 40, and the string has left its inline array.
\<close>

theorem String_growth_invariant_witness:
  "\<exists>mem s. run_operations (String_new [Live (map Some ''xyz'')])
             [OpAppendChar (CHR ''a'') 2, OpAppendView (StringView_of (Ptr 0) 3), OpResize 40]
           = Inr (mem, s)
      \<and> Size s < Capacity s \<and> Size s = 40 \<and> \<not> Capacity s \<le> MaxShortStringSize
      \<and> GetData MaxShortStringSize s \<noteq> Ptr (Array s) \<and> length mem \<noteq> 2"
proof -
  let ?mem0 = "[Live (map Some ''xyz'')]"
  let ?xs = "[OpAppendChar (CHR ''a'') 2, OpAppendView (StringView_of (Ptr 0) 3), OpResize 40]"
  have s: "sizes 0 ?xs = [2, 5, 40]" by code_simp
  have h1: "\<forall>n\<in>set (sizes 0 ?xs). n + 1 < 2 ^ 64" unfolding s by simp
  have h2: "\<forall>x\<in>set ?xs. operation_readable ?mem0 x" by code_simp
  have l: "length (fst (String_new ?mem0)) = 2" by code_simp
  show ?thesis using String_growth_invariant [OF h1 h2] unfolding s l by simp
qed

subsection \<open>Move assignment of a storage\<close>

lemma Assign_ptr_ok:
  fixes mem :: "'c::zero memory"
  assumes ok: "storage_ok A mem s" and bound: "len + 1 < 2 ^ 64"
      and src: "cells_of mem (Ptr b) = Inr scs" "len \<le> length scs" "\<not> owned A s b"
  shows "\<exists>mem' s' cs'. Assign_ptr A mem s (Ptr b) len = Inr (mem', s')
          \<and> storage_ok A mem' s' \<and> Size s' = len
          \<and> cells_of mem' (GetData A s') = Inr cs' \<and> take len cs' = take len scs
          \<and> cells_of mem' (Ptr b) = Inr scs \<and> GetData A s' \<noteq> Ptr b"
proof -
  from Resize_ok [OF ok bound] obtain mem1 s1 where
    r: "Resize A mem s len = Inr (mem1, s1)" and ok1: "storage_ok A mem1 s1"
    and s1: "Size s1 = len" "Array s1 = Array s"
    and cap: "if len \<ge> Capacity s
              then Capacity s1 = Grow len \<and> length mem1 = Suc (length mem)
                   \<and> Pointer s1 = Ptr (length mem)
              else Capacity s1 = Capacity s \<and> length mem1 = length mem
                   \<and> Pointer s1 = Pointer s"
    and fr1: "\<forall>a<length mem. \<not> owned A s a \<longrightarrow> mem1 ! a = mem ! a"
    by blast
  have b: "b < length mem" "mem ! b = Live scs" using src(1) by (auto simp: cells_of_Ptr)
  have c1: "cells_of mem1 (Ptr b) = Inr scs"
    using b fr1 src(3) cap by (auto simp: cells_of_Ptr split: if_splits)
  from data_block [OF ok1] obtain d dcs where d: "GetData A s1 = Ptr d" "owned A s1 d"
    "cells_of mem1 (Ptr d) = Inr dcs" "length dcs = Capacity s1" by blast
  have "owned A s d \<or> d = length mem"
    using d(2) cap s1(2) by (auto simp: owned_def split: if_splits)
  then have ne: "d \<noteq> b" using src(3) b(1) by auto
  have d_lt: "d < length mem1" using d(3) by (simp add: cells_of_Ptr)
  have lt: "len < length dcs" using ok1 s1(1) d(4) by (simp add: storage_ok_def)
  show ?thesis
  proof (cases "len = 0")
    case True
    then have "Assign_ptr A mem s (Ptr b) len = Inr (mem1, s1)"
      using r by (simp add: Assign_ptr_def bindF_def memmove_def)
    then show ?thesis using ok1 s1 d c1 ne True by auto
  next
    case False
    let ?cs' = "take len scs @ drop len dcs"
    have mm: "memmove mem1 (Ptr d) 0 (Ptr b) 0 len = Inr (mem1[d := Live ?cs'])"
      using False c1 d(3) src(2) lt by (simp add: memmove_def bindF_def)
    have l: "length ?cs' = length dcs" using src(2) lt by simp
    have res: "Assign_ptr A mem s (Ptr b) len = Inr (mem1[d := Live ?cs'], s1)"
      using r mm d(1) by (simp add: Assign_ptr_def bindF_def)
    have ok2: "storage_ok A (mem1[d := Live ?cs']) s1"
      using ok1 d(3) l by (rule storage_ok_update)
    have c2: "cells_of (mem1[d := Live ?cs']) (GetData A s1) = Inr ?cs'"
      using d(1) d_lt by (simp add: cells_of_update_same)
    have c3: "cells_of (mem1[d := Live ?cs']) (Ptr b) = Inr scs"
      using c1 ne by (simp add: cells_of_update_other)
    have t: "take len ?cs' = take len scs" using src(2) by simp
    show ?thesis using res ok2 s1(1) c2 t c3 d(1) ne by auto
  qed
qed

text \<open>
  C7, as the specification states it: the move assignment hands over the heap buffer
  exactly when both storages are heap-backed and the size of the source exceeds the inline
  capacity of the destination. The code tests \<^verbatim>\<open>other.Capacity > OtherArrayMaxSize\<close> and
  \<^verbatim>\<open>other.Size > ArrayMaxSize\<close>, both of the source: a new, inline destination takes over
  the buffer of a heap-backed source of 40 code units.
\<close>

theorem Assign_move_counterexample:
  "Assign_move 31 31
     [Live (replicate 31 None), Live (replicate 31 None),
      Live (replicate 40 (Some (CHR ''a'')) @ Some 0 # replicate 23 None)]
     \<lparr>Size = 0, Capacity = 31, Array = 0, Pointer = nullptr\<rparr>
     \<lparr>Size = 40, Capacity = 64, Array = 1, Pointer = Ptr 2\<rparr>
   = Inr ([Live (replicate 31 None), Live (replicate 31 None),
           Live (replicate 40 (Some (CHR ''a'')) @ Some 0 # replicate 23 None)],
          \<lparr>Size = 40, Capacity = 64, Array = 0, Pointer = Ptr 2\<rparr>,
          \<lparr>Size = 40, Capacity = 64, Array = 1, Pointer = Indeterminate\<rparr>)
   \<and> takes_over_buffer 31 31
       [Live (replicate 31 None), Live (replicate 31 None),
        Live (replicate 40 (Some (CHR ''a'')) @ Some 0 # replicate 23 None)]
       \<lparr>Size = 0, Capacity = 31, Array = 0, Pointer = nullptr\<rparr>
       \<lparr>Size = 40, Capacity = 64, Array = 1, Pointer = Ptr 2\<rparr>
   \<and> \<not> (Capacity \<lparr>Size = 0, Capacity = 31, Array = 0, Pointer = nullptr\<rparr> > 31
        \<and> Capacity \<lparr>Size = 40, Capacity = 64, Array = 1, Pointer = Ptr 2\<rparr> > 31
        \<and> Size \<lparr>Size = 40, Capacity = 64, Array = 1, Pointer = Ptr 2\<rparr> > 31)"
  by code_simp

text \<open>
  C7, amended: for two well-formed storages that own different blocks, the move
  assignment takes over the buffer of the source, allocating nothing and copying no code
  unit, exactly when the source is heap-backed (\<open>Capacity other > OtherArrayMaxSize\<close>) and
  its size exceeds the inline capacity of the destination (\<open>Size other > ArrayMaxSize\<close>);
  in every other case it copies the code units of the source into a buffer of the
  destination and leaves the source as it was.
\<close>

theorem Assign_move_transfer:
  fixes mem :: "'c::zero memory"
  assumes ok: "storage_ok A mem s" and oko: "storage_ok B mem other"
      and disj: "\<forall>a. owned B other a \<longrightarrow> \<not> owned A s a"
      and bound: "Capacity other < 2 ^ 64"
  shows "(takes_over_buffer A B mem s other \<longleftrightarrow> Capacity other > B \<and> Size other > A)
       \<and> (Capacity other > B \<and> Size other > A \<longrightarrow>
            (\<exists>mem' s' other'. Assign_move A B mem s other = Inr (mem', s', other')
               \<and> Pointer s' = Pointer other \<and> GetData A s' = GetData B other
               \<and> Capacity s' = Capacity other \<and> Size s' = Size other
               \<and> length mem' = length mem \<and> (\<forall>a. a \<noteq> Array s \<longrightarrow> mem' ! a = mem ! a)))
       \<and> (\<not> (Capacity other > B \<and> Size other > A) \<longrightarrow>
            (\<exists>mem' s' cs cs'. Assign_move A B mem s other = Inr (mem', s', other)
               \<and> Size s' = Size other \<and> Size s' < Capacity s'
               \<and> cells_of mem (GetData B other) = Inr cs
               \<and> cells_of mem' (GetData B other) = Inr cs
               \<and> cells_of mem' (GetData A s') = Inr cs'
               \<and> take (Size other) cs' = take (Size other) cs
               \<and> GetData A s' \<noteq> GetData B other))"
proof -
  have szo: "Size other < Capacity other" using oko by (simp add: storage_ok_def)
  have tr: "\<exists>mem' s' other'. Assign_move A B mem s other = Inr (mem', s', other')
               \<and> Pointer s' = Pointer other \<and> GetData A s' = GetData B other
               \<and> Capacity s' = Capacity other \<and> Size s' = Size other
               \<and> length mem' = length mem \<and> (\<forall>a. a \<noteq> Array s \<longrightarrow> mem' ! a = mem ! a)"
    if c: "Capacity other > B \<and> Size other > A"
    using c szo by (auto simp: Assign_move_def read_Pointer_def GetData_def overwrite_Array_def)
  have fb: "\<exists>mem' s' cs cs'. Assign_move A B mem s other = Inr (mem', s', other)
               \<and> Size s' = Size other \<and> Size s' < Capacity s'
               \<and> cells_of mem (GetData B other) = Inr cs
               \<and> cells_of mem' (GetData B other) = Inr cs
               \<and> cells_of mem' (GetData A s') = Inr cs'
               \<and> take (Size other) cs' = take (Size other) cs
               \<and> GetData A s' \<noteq> GetData B other"
    if c: "\<not> (Capacity other > B \<and> Size other > A)"
  proof -
    from data_block [OF oko] obtain b scs where b: "GetData B other = Ptr b" "owned B other b"
      "cells_of mem (Ptr b) = Inr scs" "length scs = Capacity other" by blast
    have nb: "\<not> owned A s b" using disj b(2) by simp
    have le: "Size other \<le> length scs" using szo b(4) by simp
    have bd: "Size other + 1 < 2 ^ 64" using szo bound by simp
    from Assign_ptr_ok [OF ok bd b(3) le nb] obtain mem' s' cs' where
      "Assign_ptr A mem s (Ptr b) (Size other) = Inr (mem', s')"
      "storage_ok A mem' s'" "Size s' = Size other"
      "cells_of mem' (GetData A s') = Inr cs'" "take (Size other) cs' = take (Size other) scs"
      "cells_of mem' (Ptr b) = Inr scs" "GetData A s' \<noteq> Ptr b" by blast
    then show ?thesis using c b(1,3)
      by (intro exI [of _ mem'] exI [of _ s'] exI [of _ scs] exI [of _ cs'])
         (auto simp: Assign_move_def bindF_def storage_ok_def)
  qed
  have iff: "takes_over_buffer A B mem s other \<longleftrightarrow> Capacity other > B \<and> Size other > A"
  proof (cases "Capacity other > B \<and> Size other > A")
    case True
    from tr [OF True] show ?thesis using True by (auto simp: takes_over_buffer_def)
  next
    case False
    from fb [OF False] show ?thesis using False by (auto simp: takes_over_buffer_def)
  qed
  show ?thesis using iff tr fb by blast
qed

text \<open>
  The theorem at two states: a new destination and a heap-backed source of 40 code units,
  whose buffer is taken over, and a new destination and an inline source holding
  \<^verbatim>\<open>"ab"\<close>, whose code units are copied.
\<close>

theorem Assign_move_transfer_witness:
  "takes_over_buffer 31 31
     [Live (replicate 31 None), Live (replicate 31 None),
      Live (replicate 40 (Some (CHR ''a'')) @ Some 0 # replicate 23 None)]
     \<lparr>Size = 0, Capacity = 31, Array = 0, Pointer = nullptr\<rparr>
     \<lparr>Size = 40, Capacity = 64, Array = 1, Pointer = Ptr 2\<rparr>
   \<and> \<not> takes_over_buffer 31 31
       [Live (replicate 31 None),
        Live (Some (CHR ''a'') # Some (CHR ''b'') # Some 0 # replicate 28 None)]
       \<lparr>Size = 0, Capacity = 31, Array = 0, Pointer = nullptr\<rparr>
       \<lparr>Size = 2, Capacity = 31, Array = 1, Pointer = nullptr\<rparr>
   \<and> (\<exists>mem' s' cs'.
        Assign_move 31 31
          [Live (replicate 31 None),
           Live (Some (CHR ''a'') # Some (CHR ''b'') # Some 0 # replicate 28 None)]
          \<lparr>Size = 0, Capacity = 31, Array = 0, Pointer = nullptr\<rparr>
          \<lparr>Size = 2, Capacity = 31, Array = 1, Pointer = nullptr\<rparr>
        = Inr (mem', s', \<lparr>Size = 2, Capacity = 31, Array = 1, Pointer = nullptr\<rparr>)
        \<and> Size s' = 2 \<and> cells_of mem' (GetData 31 s') = Inr cs'
        \<and> take 2 cs' = [Some (CHR ''a''), Some (CHR ''b'')])"
proof -
  let ?memT = "[Live (replicate 31 None), Live (replicate 31 None),
      Live (replicate 40 (Some (CHR ''a'')) @ Some 0 # replicate 23 None)]"
  let ?sT = "\<lparr>Size = 0, Capacity = 31, Array = 0, Pointer = nullptr\<rparr>"
  let ?oT = "\<lparr>Size = 40, Capacity = 64, Array = 1, Pointer = Ptr 2\<rparr>"
  let ?memF = "[Live (replicate 31 None),
        Live (Some (CHR ''a'') # Some (CHR ''b'') # Some 0 # replicate 28 None)]"
  let ?oF = "\<lparr>Size = 2, Capacity = 31, Array = 1, Pointer = nullptr\<rparr>"
  have t1: "storage_ok 31 ?memT ?sT" by code_simp
  have t2: "storage_ok 31 ?memT ?oT" by code_simp
  have t3: "\<forall>a. owned 31 ?oT a \<longrightarrow> \<not> owned 31 ?sT a" by (simp add: owned_def)
  have t4: "Capacity ?oT < 2 ^ 64" by simp
  have f1: "storage_ok 31 ?memF ?sT" by code_simp
  have f2: "storage_ok 31 ?memF ?oF" by code_simp
  have f3: "\<forall>a. owned 31 ?oF a \<longrightarrow> \<not> owned 31 ?sT a" by (simp add: owned_def)
  have f4: "Capacity ?oF < 2 ^ 64" by simp
  have c: "cells_of ?memF (GetData 31 ?oF)
             = Inr (Some (CHR ''a'') # Some (CHR ''b'') # Some 0 # replicate 28 None)"
    by (simp add: cells_of_def GetData_def)
  show ?thesis
    using Assign_move_transfer [OF t1 t2 t3 t4] Assign_move_transfer [OF f1 f2 f3 f4] c
    by (auto simp: numeral_2_eq_2)
qed

subsection \<open>The failure table\<close>

lemma is_border_nth:
  "is_border p n b \<longleftrightarrow> b < n \<and> n \<le> length p \<and> (\<forall>j<b. p ! j = p ! (n - b + j))"
proof (cases "b < n \<and> n \<le> length p")
  case True
  then have "(take b p = take b (drop (n - b) p)) \<longleftrightarrow> (\<forall>j<b. p ! j = p ! (n - b + j))"
    by (auto simp: list_eq_iff_nth_eq)
  then show ?thesis using True by (simp add: is_border_def)
next
  case False
  then show ?thesis by (auto simp: is_border_def)
qed

lemma is_border_0: "is_border p n 0 \<longleftrightarrow> 0 < n \<and> n \<le> length p"
  by (simp add: is_border_def)

lemma is_border_Suc:
  assumes "n < length p"
  shows "is_border p (Suc n) (Suc b) \<longleftrightarrow> is_border p n b \<and> p ! b = p ! n"
proof
  assume l: "is_border p (Suc n) (Suc b)"
  then have b: "b < n" and eq: "\<And>j. j < Suc b \<Longrightarrow> p ! j = p ! (n - b + j)"
    by (auto simp: is_border_nth)
  have "p ! b = p ! n" using eq [of b] b by simp
  moreover have "is_border p n b" using b assms eq by (auto simp: is_border_nth)
  ultimately show "is_border p n b \<and> p ! b = p ! n" by simp
next
  assume r: "is_border p n b \<and> p ! b = p ! n"
  then have b: "b < n" and eq: "\<And>j. j < b \<Longrightarrow> p ! j = p ! (n - b + j)"
    by (auto simp: is_border_nth)
  have "p ! j = p ! (Suc n - Suc b + j)" if "j < Suc b" for j
    using that eq [of j] r b by (cases "j = b") auto
  then show "is_border p (Suc n) (Suc b)" using b assms by (auto simp: is_border_nth)
qed

lemma border_of_border:
  assumes "is_border p n c" "is_border p c b"
  shows "is_border p n b"
proof -
  from assms have c: "c < n" "n \<le> length p" and b: "b < c"
    and e1: "\<And>j. j < c \<Longrightarrow> p ! j = p ! (n - c + j)"
    and e2: "\<And>j. j < b \<Longrightarrow> p ! j = p ! (c - b + j)"
    by (auto simp: is_border_nth)
  have "p ! j = p ! (n - b + j)" if "j < b" for j
  proof -
    have "p ! j = p ! (c - b + j)" using e2 that by simp
    also have "\<dots> = p ! (n - c + (c - b + j))" using e1 [of "c - b + j"] that b by simp
    also have "n - c + (c - b + j) = n - b + j" using b c that by simp
    finally show ?thesis .
  qed
  then show ?thesis using b c by (auto simp: is_border_nth)
qed

lemma smaller_border:
  assumes "is_border p n c" "is_border p n b" "b < c"
  shows "is_border p c b"
proof -
  from assms have c: "c < n" "n \<le> length p"
    and e1: "\<And>j. j < c \<Longrightarrow> p ! j = p ! (n - c + j)"
    and e2: "\<And>j. j < b \<Longrightarrow> p ! j = p ! (n - b + j)"
    by (auto simp: is_border_nth)
  have "p ! j = p ! (c - b + j)" if "j < b" for j
  proof -
    have "p ! (c - b + j) = p ! (n - c + (c - b + j))"
      using e1 [of "c - b + j"] that assms(3) by simp
    also have "n - c + (c - b + j) = n - b + j" using assms(3) c that by simp
    finally show ?thesis using e2 that by simp
  qed
  then show ?thesis using assms(3) c by (auto simp: is_border_nth)
qed

lemma last_filter_upt_max:
  "P b \<Longrightarrow> b < n \<Longrightarrow> \<forall>c<n. P c \<longrightarrow> c \<le> b \<Longrightarrow> last (0 # filter P [0..<n]) = b"
proof (induction n)
  case 0
  then show ?case by simp
next
  case (Suc n)
  show ?case
  proof (cases "b = n")
    case True
    then show ?thesis using Suc.prems by simp
  next
    case False
    then have "b < n" using Suc.prems by simp
    moreover have "\<not> P n" using Suc.prems(3) \<open>b < n\<close> by auto
    ultimately show ?thesis using Suc by simp
  qed
qed

lemma last_filter_upt_none:
  "\<forall>c<n. \<not> P c \<Longrightarrow> last (0 # filter P [0..<n]) = (0::nat)"
proof -
  assume "\<forall>c<n. \<not> P c"
  then have "filter P [0..<n] = []" by (auto simp: filter_empty_conv)
  then show ?thesis by simp
qed

lemma last_filter_upt_cases:
  "last (0 # filter P [0..<n]) = (0::nat)
   \<or> (P (last (0 # filter P [0..<n])) \<and> last (0 # filter P [0..<n]) < n)"
proof (cases "filter P [0..<n] = []")
  case True
  then show ?thesis by simp
next
  case False
  then have "last (filter P [0..<n]) \<in> set (filter P [0..<n])" by (rule last_in_set)
  then show ?thesis using False by auto
qed

lemma last_filter_upt_ge:
  assumes "P b" "b < n"
  shows "b \<le> last (0 # filter P [0..<n])"
proof -
  have s: "sorted (filter P [0..<n])" by (simp add: sorted_wrt_filter)
  have m: "b \<in> set (filter P [0..<n])" using assms by simp
  then have ne: "filter P [0..<n] \<noteq> []" by (metis empty_iff list.set(1))
  from m obtain k where k: "k < length (filter P [0..<n])" "filter P [0..<n] ! k = b"
    unfolding in_set_conv_nth by blast
  have "filter P [0..<n] ! k \<le> filter P [0..<n] ! (length (filter P [0..<n]) - 1)"
    using s k(1) by (intro sorted_nth_mono) auto
  then show ?thesis using ne k(2) by (simp add: last_conv_nth)
qed

lemma strong_border_cases:
  "strong_border p i = 0
   \<or> (is_border p (Suc i) (strong_border p i) \<and> p ! strong_border p i \<noteq> p ! Suc i)"
  unfolding strong_border_def
  using last_filter_upt_cases [of "\<lambda>b. is_border p (Suc i) b \<and> p ! b \<noteq> p ! Suc i" "Suc i"]
  by auto

lemma strong_border_le: "strong_border p i \<le> i"
  using strong_border_cases [of p i] by (auto simp: is_border_def)

lemma strong_border_ge:
  "is_border p (Suc i) b \<Longrightarrow> p ! b \<noteq> p ! Suc i \<Longrightarrow> b \<le> strong_border p i"
  unfolding strong_border_def
  by (rule last_filter_upt_ge) (auto simp: is_border_def)

lemma strong_border_eqI:
  assumes "is_border p (Suc i) b" "p ! b \<noteq> p ! Suc i"
      and "\<And>c. is_border p (Suc i) c \<Longrightarrow> p ! c \<noteq> p ! Suc i \<Longrightarrow> c \<le> b"
  shows "strong_border p i = b"
  unfolding strong_border_def
  using assms by (intro last_filter_upt_max) (auto simp: is_border_def)

lemma strong_border_0I:
  assumes "\<And>c. is_border p (Suc i) c \<Longrightarrow> p ! c \<noteq> p ! Suc i \<Longrightarrow> c = 0"
  shows "strong_border p i = 0"
  using strong_border_cases [of p i] assms by auto

lemma longest_border_ge: "is_border p n b \<Longrightarrow> b \<le> longest_border p n"
  unfolding longest_border_def by (rule last_filter_upt_ge) (auto simp: is_border_def)

lemma strong_border_le_longest: "strong_border p i \<le> longest_border p (Suc i)"
  using strong_border_cases [of p i] longest_border_ge [of p "Suc i" "strong_border p i"]
  by auto

lemma BuildTable_body_step:
  assumes ld: "\<And>k. k < length p \<Longrightarrow> load mem pat (pb + k) = Inr (p ! k)"
      and inv: "table_inv p pos cand t"
      and pos: "pos < length p - 1"
  shows "\<exists>pos' cand' t'. BuildTable_body mem pat pb pos cand t = Inr (pos', cand', t')
          \<and> table_inv p pos' cand' t' \<and> pos' \<le> length p - 1
          \<and> 2 * (length p - 1 - pos') + cand' < 2 * (length p - 1 - pos) + cand"
proof -
  from inv have len: "length t = length p - 1"
    and tab: "\<And>i. i < pos \<Longrightarrow> t ! i = Some (strong_border p i)"
    and bord: "is_border p pos cand"
    and mx: "\<And>b. is_border p pos b \<Longrightarrow> p ! b = p ! pos \<Longrightarrow> b \<le> cand"
    by (auto simp: table_inv_def)
  have cand: "cand < pos" using bord by (simp add: is_border_def)
  have l1: "load mem pat (pb + pos) = Inr (p ! pos)" using ld pos by simp
  have l2: "load mem pat (pb + cand) = Inr (p ! cand)" using ld pos cand by simp
  have l3: "load mem pat (pb + (pos + 1)) = Inr (p ! Suc pos)" using ld [of "Suc pos"] pos by simp
  have l4: "load mem pat (pb + Suc cand) = Inr (p ! Suc cand)"
    using ld [of "Suc cand"] pos cand by simp
  have posl: "pos < length p" using pos by simp
  show ?thesis
  proof (cases "p ! pos = p ! cand")
    case True
    \<comment> \<open>the border grows by one\<close>
    have b1: "is_border p (Suc pos) (Suc cand)"
      using bord True posl by (simp add: is_border_Suc)
    have all_le: "c \<le> Suc cand" if "is_border p (Suc pos) c" for c
    proof (cases c)
      case 0
      then show ?thesis by simp
    next
      case (Suc c')
      with that have "is_border p pos c' \<and> p ! c' = p ! pos" using posl by (simp add: is_border_Suc)
      then show ?thesis using mx Suc by auto
    qed
    let ?entry = "if p ! Suc pos = p ! Suc cand then strong_border p cand else Suc cand"
    have rd: "(if p ! Suc pos = p ! Suc cand then table_read t (Suc cand - 1) else Inr (Suc cand))
                = Inr ?entry"
      using tab [OF cand] cand pos len by (simp add: table_read_def)
    have wr: "table_write t pos ?entry = Inr (t[pos := Some ?entry])"
      using pos len by (simp add: table_write_def)
    have body: "BuildTable_body mem pat pb pos cand t
                  = Inr (Suc pos, Suc cand, t[pos := Some ?entry])"
      unfolding BuildTable_body_def Let_def
      using True l1 l2 l3 l4 rd wr by (simp add: bindF_def)
    have entry: "strong_border p pos = ?entry"
    proof (cases "p ! Suc pos = p ! Suc cand")
      case False
      have "strong_border p pos = Suc cand"
        using b1 False all_le by (intro strong_border_eqI) auto
      then show ?thesis using False by simp
    next
      case eq: True
      have "strong_border p pos = strong_border p cand"
      proof -
        have iff: "(is_border p (Suc pos) c \<and> p ! c \<noteq> p ! Suc pos)
                    \<longleftrightarrow> (is_border p (Suc cand) c \<and> p ! c \<noteq> p ! Suc cand)" for c
        proof
          assume a: "is_border p (Suc pos) c \<and> p ! c \<noteq> p ! Suc pos"
          then have "c \<le> Suc cand" "c \<noteq> Suc cand" using all_le eq by auto
          then have lt: "c < Suc cand" by simp
          have "is_border p (Suc cand) c" using smaller_border [OF b1 conjunct1 [OF a] lt] .
          then show "is_border p (Suc cand) c \<and> p ! c \<noteq> p ! Suc cand" using a eq by simp
        next
          assume a: "is_border p (Suc cand) c \<and> p ! c \<noteq> p ! Suc cand"
          have "is_border p (Suc pos) c" using border_of_border [OF b1 conjunct1 [OF a]] .
          then show "is_border p (Suc pos) c \<and> p ! c \<noteq> p ! Suc pos" using a eq by simp
        qed
        show ?thesis
        proof (cases "strong_border p cand = 0 \<and> \<not> (is_border p (Suc cand) 0 \<and> p ! 0 \<noteq> p ! Suc cand)")
          case True
          have "strong_border p pos = 0"
          proof (rule strong_border_0I)
            fix c assume "is_border p (Suc pos) c" "p ! c \<noteq> p ! Suc pos"
            then have c: "is_border p (Suc cand) c" "p ! c \<noteq> p ! Suc cand" using iff by auto
            then have "c \<le> strong_border p cand" by (rule strong_border_ge)
            then show "c = 0" using True by simp
          qed
          then show ?thesis using True by simp
        next
          case False
          then have sb: "is_border p (Suc cand) (strong_border p cand)"
            "p ! strong_border p cand \<noteq> p ! Suc cand"
            using strong_border_cases [of p cand] by auto
          show ?thesis
          proof (rule strong_border_eqI)
            show "is_border p (Suc pos) (strong_border p cand)" using sb iff by blast
            show "p ! strong_border p cand \<noteq> p ! Suc pos" using sb iff by blast
            fix c assume "is_border p (Suc pos) c" "p ! c \<noteq> p ! Suc pos"
            then have "is_border p (Suc cand) c" "p ! c \<noteq> p ! Suc cand" using iff by auto
            then show "c \<le> strong_border p cand" by (rule strong_border_ge)
          qed
        qed
      qed
      then show ?thesis using eq by simp
    qed
    have tab': "(t[pos := Some ?entry]) ! i = Some (strong_border p i)" if "i < Suc pos" for i
      using that tab entry pos len by (cases "i = pos") auto
    have inv': "table_inv p (Suc pos) (Suc cand) (t[pos := Some ?entry])"
      unfolding table_inv_def using len tab' b1 all_le by auto
    show ?thesis using body inv' pos by (intro exI conjI) (assumption | simp)+
  next
    case False
    show ?thesis
    proof (cases "cand = 0")
      case True
      have only0: "c = 0" if "is_border p (Suc pos) c" for c
      proof (cases c)
        case 0
        then show ?thesis .
      next
        case (Suc c')
        with that have c': "is_border p pos c'" "p ! c' = p ! pos"
          using posl by (simp_all add: is_border_Suc)
        then have "c' \<le> cand" by (rule mx)
        then show ?thesis using c' True False by simp
      qed
      have wr: "table_write t pos 0 = Inr (t[pos := Some 0])"
        using pos len by (simp add: table_write_def)
      have body: "BuildTable_body mem pat pb pos cand t = Inr (Suc pos, cand, t[pos := Some 0])"
        unfolding BuildTable_body_def using False True l1 l2 wr by (simp add: bindF_def)
      have entry: "strong_border p pos = 0" using only0 by (intro strong_border_0I)
      have tab': "(t[pos := Some 0]) ! i = Some (strong_border p i)" if "i < Suc pos" for i
        using that tab entry pos len by (cases "i = pos") auto
      have b0: "is_border p (Suc pos) 0" using posl by (simp add: is_border_0)
      have inv': "table_inv p (Suc pos) cand (t[pos := Some 0])"
        unfolding table_inv_def using len tab' b0 only0 True by auto
      show ?thesis using body inv' pos True by (intro exI conjI) (assumption | simp)+
    next
      case pos_cand: False
      let ?c = "strong_border p (cand - 1)"
      have rd: "table_read t (cand - 1) = Inr ?c"
        using tab [of "cand - 1"] cand pos len pos_cand by (simp add: table_read_def)
      have body: "BuildTable_body mem pat pb pos cand t = Inr (pos, ?c, t)"
        unfolding BuildTable_body_def using False pos_cand l1 l2 rd by (simp add: bindF_def)
      have sc: "Suc (cand - 1) = cand" using pos_cand by simp
      have lt: "?c < cand" using strong_border_le [of p "cand - 1"] pos_cand by simp
      have b': "is_border p pos ?c"
      proof (cases "?c = 0")
        case True
        then show ?thesis using cand pos by (simp add: is_border_0)
      next
        case False
        then have "is_border p cand ?c" using strong_border_cases [of p "cand - 1"] sc by auto
        with bord show ?thesis by (rule border_of_border)
      qed
      have mx': "b \<le> ?c" if "is_border p pos b" "p ! b = p ! pos" for b
      proof -
        have "b \<le> cand" using that by (rule mx)
        moreover have "b \<noteq> cand" using that(2) False by auto
        ultimately have lt: "b < cand" by simp
        have "is_border p cand b" using smaller_border [OF bord that(1) lt] .
        moreover have "p ! b \<noteq> p ! cand" using that(2) False by simp
        ultimately show ?thesis using strong_border_ge [of p "cand - 1" b] sc by simp
      qed
      have inv': "table_inv p pos ?c t"
        unfolding table_inv_def using len tab b' mx' by auto
      show ?thesis using body inv' pos lt by (intro exI conjI) (assumption | simp)+
    qed
  qed
qed

lemma BuildTable_loop_returns:
  assumes ld: "\<And>k. k < length p \<Longrightarrow> load mem pat (pb + k) = Inr (p ! k)"
  shows "table_inv p pos cand t \<Longrightarrow> pos < length p - 1 \<Longrightarrow>
         2 * (length p - 1 - pos) + cand \<le> fuel \<Longrightarrow>
         \<exists>t'. BuildTable_loop fuel mem pat pb (length p) pos cand t = Some (Inr t')
              \<and> length t' = length p - 1
              \<and> (\<forall>i<length p - 1. t' ! i = Some (strong_border p i))"
proof (induction fuel arbitrary: pos cand t)
  case 0
  from 0(2,3) have False by arith
  then show ?case ..
next
  case (Suc fuel)
  from BuildTable_body_step [OF ld Suc.prems(1,2)] obtain pos' cand' t' where
    body: "BuildTable_body mem pat pb pos cand t = Inr (pos', cand', t')"
    and inv': "table_inv p pos' cand' t'" and le: "pos' \<le> length p - 1"
    and dec: "2 * (length p - 1 - pos') + cand' < 2 * (length p - 1 - pos) + cand"
    by blast
  show ?case
  proof (cases "pos' < length p - 1")
    case True
    have "2 * (length p - 1 - pos') + cand' \<le> fuel" using dec Suc.prems(3) by simp
    from Suc.IH [OF inv' True this] show ?thesis using body True by (simp add: bindO_def)
  next
    case False
    then have "pos' = length p - 1" using le by simp
    then have "length t' = length p - 1 \<and> (\<forall>i<length p - 1. t' ! i = Some (strong_border p i))"
      using inv' by (simp add: table_inv_def)
    then show ?thesis using body False by (simp add: bindO_def)
  qed
qed

lemma BuildTable_returns:
  assumes c: "contents mem pattern = Inr p" and m: "2 \<le> length p"
      and fuel: "2 * length p \<le> fuel"
  shows "\<exists>t. BuildTable fuel mem (m_Base pattern) (m_StrBegin pattern) (length p)
                (replicate (length p - 1) None) = Some (Inr t)
          \<and> length t = length p - 1
          \<and> (\<forall>i<length p - 1. t ! i = Some (strong_border p i))"
proof -
  from load_range_nth [OF c [unfolded contents_def]]
  have ld: "\<And>k. k < length p \<Longrightarrow> load mem (m_Base pattern) (m_StrBegin pattern + k) = Inr (p ! k)"
    by auto
  let ?t1 = "(replicate (length p - 1) None)[0 := Some 0]"
  have wr: "table_write (replicate (length p - 1) None) 0 0 = Inr ?t1"
    using m by (simp add: table_write_def)
  have z: "strong_border p 0 = 0" using strong_border_le [of p 0] by simp
  show ?thesis
  proof (cases "length p > 2")
    case True
    have inv: "table_inv p 1 0 ?t1"
      unfolding table_inv_def using True z by (auto simp: is_border_def)
    have "\<exists>t'. BuildTable_loop fuel mem (m_Base pattern) (m_StrBegin pattern) (length p) 1 0 ?t1
                  = Some (Inr t')
              \<and> length t' = length p - 1
              \<and> (\<forall>i<length p - 1. t' ! i = Some (strong_border p i))"
      using True fuel by (intro BuildTable_loop_returns [OF ld inv]) auto
    then show ?thesis using wr True by (simp add: BuildTable_def bindO_def)
  next
    case False
    then have "length p = 2" using m by simp
    then show ?thesis using wr z by (simp add: BuildTable_def bindO_def)
  qed
qed

subsection \<open>Appending a string to itself without reallocation\<close>

lemma load_range_cells:
  assumes "cells_of mem (Ptr d) = Inr cs" "b + k \<le> length cs" "length zs = k"
      and "\<forall>i<k. cs ! (b + i) = Some (zs ! i)"
  shows "load_range mem (Ptr d) b k = Inr zs"
  using assms
proof (induction k arbitrary: b zs)
  case 0
  then show ?case by simp
next
  case (Suc k)
  from Suc.prems(3) obtain z zs' where zs: "zs = z # zs'" "length zs' = k"
    by (cases zs) auto
  have l: "load mem (Ptr d) b = Inr z"
    using Suc.prems(1,2) Suc.prems(4) [rule_format, of 0] zs by (simp add: load_def bindF_def)
  have "load_range mem (Ptr d) (Suc b) k = Inr zs'"
  proof (rule Suc.IH [OF Suc.prems(1) _ zs(2)])
    show "Suc b + k \<le> length cs" using Suc.prems(2) by simp
    show "\<forall>i<k. cs ! (Suc b + i) = Some (zs' ! i)"
      using Suc.prems(4) zs by (metis add_Suc_shift Suc_less_eq nth_Cons_Suc)
  qed
  then show ?case using l zs by (simp add: bindF_def)
qed

lemma load_range_cells_conv:
  assumes "cells_of mem (Ptr d) = Inr cs" "load_range mem (Ptr d) b k = Inr zs"
  shows "length zs = k \<and> (\<forall>i<k. b + i < length cs \<and> cs ! (b + i) = Some (zs ! i))"
proof -
  from load_range_nth [OF assms(2)] have len: "length zs = k"
    and ld: "\<And>i. i < k \<Longrightarrow> load mem (Ptr d) (b + i) = Inr (zs ! i)" by auto
  have "b + i < length cs \<and> cs ! (b + i) = Some (zs ! i)" if "i < k" for i
    using ld [OF that] assms(1) by (auto simp: load_def bindF_def split: if_splits option.splits)
  then show ?thesis using len by simp
qed

lemma fill_n_cells:
  "cells_of mem (Ptr a) = Inr cs \<Longrightarrow> i + k \<le> length cs \<Longrightarrow>
   \<exists>cs'. fill_n mem (Ptr a) i k v = Inr (mem[a := Live cs']) \<and> length cs' = length cs
         \<and> (\<forall>j<i. cs' ! j = cs ! j)"
proof (induction k arbitrary: mem cs i)
  case 0
  then have "mem[a := Live cs] = mem" by (simp add: cells_of_Ptr list_update_same_conv)
  then show ?case by (intro exI [of _ cs]) simp
next
  case (Suc k)
  have a: "a < length mem" using Suc.prems(1) by (simp add: cells_of_Ptr)
  have st: "store mem (Ptr a) i v = Inr (mem[a := Live (cs[i := Some v])])"
    using Suc.prems by (intro store_ok) auto
  have c: "cells_of (mem[a := Live (cs[i := Some v])]) (Ptr a) = Inr (cs[i := Some v])"
    using a by (rule cells_of_update_same)
  from Suc.IH [OF c, of "Suc i"] Suc.prems(2)
  obtain cs' where "fill_n (mem[a := Live (cs[i := Some v])]) (Ptr a) (Suc i) k v
      = Inr (mem[a := Live (cs[i := Some v]), a := Live cs'])" "length cs' = length cs"
      "\<forall>j<Suc i. cs' ! j = (cs[i := Some v]) ! j"
    by auto
  then show ?case using st by (intro exI [of _ cs']) (auto simp: bindF_def)
qed

lemma copy_within_block:
  assumes "cells_of mem (Ptr d) = Inr cs" "first + n \<le> dpos" "dpos + n \<le> length cs"
      and "length ys = n" "\<forall>i<n. cs ! (first + i) = Some (ys ! i)"
  shows "\<exists>cs'. copy mem (Ptr d) first n (Ptr d) dpos = Inr (mem[d := Live cs'])
            \<and> length cs' = length cs \<and> (\<forall>j<dpos. cs' ! j = cs ! j)
            \<and> (\<forall>i<n. cs' ! (dpos + i) = Some (ys ! i))"
  using assms
proof (induction n arbitrary: mem cs first dpos ys)
  case 0
  then have "mem[d := Live cs] = mem" by (simp add: cells_of_Ptr list_update_same_conv)
  then show ?case by (intro exI [of _ cs]) simp
next
  case (Suc n)
  from Suc.prems(4) obtain y ys' where ys: "ys = y # ys'" "length ys' = n" by (cases ys) auto
  have dl: "d < length mem" using Suc.prems(1) by (simp add: cells_of_Ptr)
  have ld: "load mem (Ptr d) first = Inr y"
    using Suc.prems(1,2,3) Suc.prems(5) [rule_format, of 0] ys by (simp add: load_def bindF_def)
  have st: "store mem (Ptr d) dpos y = Inr (mem[d := Live (cs[dpos := Some y])])"
    using Suc.prems by (intro store_ok) auto
  let ?cs1 = "cs[dpos := Some y]"
  let ?mem1 = "mem[d := Live ?cs1]"
  have c1: "cells_of ?mem1 (Ptr d) = Inr ?cs1" using dl by (rule cells_of_update_same)
  have "\<exists>cs'. copy ?mem1 (Ptr d) (Suc first) n (Ptr d) (Suc dpos) = Inr (?mem1[d := Live cs'])
            \<and> length cs' = length ?cs1 \<and> (\<forall>j<Suc dpos. cs' ! j = ?cs1 ! j)
            \<and> (\<forall>i<n. cs' ! (Suc dpos + i) = Some (ys' ! i))"
  proof (rule Suc.IH [OF c1 _ _ ys(2)])
    show "Suc first + n \<le> Suc dpos" using Suc.prems(2) by simp
    show "Suc dpos + n \<le> length ?cs1" using Suc.prems(3) by simp
    show "\<forall>i<n. ?cs1 ! (Suc first + i) = Some (ys' ! i)"
    proof (intro allI impI)
      fix i assume i: "i < n"
      then have "first + Suc i \<noteq> dpos" using Suc.prems(2) by simp
      then have "?cs1 ! (Suc first + i) = cs ! (first + Suc i)" by simp
      also have "\<dots> = Some (ys ! Suc i)" using Suc.prems(5) [rule_format, of "Suc i"] i by simp
      finally show "?cs1 ! (Suc first + i) = Some (ys' ! i)" using ys by simp
    qed
  qed
  then obtain cs' where cs': "copy ?mem1 (Ptr d) (Suc first) n (Ptr d) (Suc dpos)
        = Inr (?mem1[d := Live cs'])"
    "length cs' = length cs" "\<forall>j<Suc dpos. cs' ! j = ?cs1 ! j"
    "\<forall>i<n. cs' ! (Suc dpos + i) = Some (ys' ! i)" by auto
  have r: "copy mem (Ptr d) first (Suc n) (Ptr d) dpos = Inr (mem[d := Live cs'])"
    using ld st cs'(1) by (simp add: bindF_def)
  have p1: "\<forall>j<dpos. cs' ! j = cs ! j" using cs'(3) by auto
  have p2: "cs' ! (dpos + i) = Some (ys ! i)" if "i < Suc n" for i
  proof (cases i)
    case 0
    then show ?thesis using cs'(3) [rule_format, of dpos] Suc.prems(3) ys by simp
  next
    case (Suc i')
    then show ?thesis using cs'(4) [rule_format, of i'] that ys by simp
  qed
  show ?case using r cs'(2) p1 p2 by (intro exI [of _ cs']) simp
qed

lemma Resize_in_place:
  fixes mem :: "'c::zero memory"
  assumes ok: "storage_ok A mem s" and lt: "newSize < Capacity s" and ge: "Size s \<le> newSize"
      and d: "GetData A s = Ptr d" "cells_of mem (Ptr d) = Inr cs"
  shows "\<exists>cs'. Resize A mem s newSize = Inr (mem[d := Live cs'], s\<lparr>Size := newSize\<rparr>)
            \<and> length cs' = length cs \<and> (\<forall>j<Size s. cs' ! j = cs ! j)"
proof -
  from ok have A: "A \<le> Capacity s" by (auto simp: storage_ok_def split: if_splits)
  from data_block [OF ok] d have len: "length cs = Capacity s" by auto
  have dl: "d < length mem" using d(2) by (simp add: cells_of_Ptr)
  have "Size s + (newSize - Size s) \<le> length cs" using lt ge len by simp
  from fill_n_cells [OF d(2) this, of "0::'c"] obtain cs1 where
    f: "fill_n mem (Ptr d) (Size s) (newSize - Size s) (0::'c) = Inr (mem[d := Live cs1])"
    and l1: "length cs1 = length cs" and p1: "\<forall>j<Size s. cs1 ! j = cs ! j" by blast
  have gd: "GetData A (s\<lparr>Size := newSize\<rparr>) = Ptr d" using d(1) by (auto simp: GetData_def)
  have st: "store (mem[d := Live cs1]) (Ptr d) newSize (0::'c)
              = Inr (mem[d := Live cs1, d := Live (cs1[newSize := Some 0])])"
    using dl lt l1 len by (intro store_ok) (auto simp: cells_of_update_same)
  have "Resize A mem s newSize = Inr (mem[d := Live (cs1[newSize := Some 0])], s\<lparr>Size := newSize\<rparr>)"
    unfolding Resize_def using A lt f st gd d(1) by (simp add: bindF_def)
  moreover have "\<forall>j<Size s. (cs1[newSize := Some 0]) ! j = cs ! j" using p1 ge by simp
  ultimately show ?thesis using l1 by (intro exI [of _ "cs1[newSize := Some 0]"]) simp
qed

text \<open>
  What holds of \<^verbatim>\<open>Append\<close> with a view of the string itself: when twice the size is still
  below the capacity, nothing is reallocated, the copy reads the first half of the buffer
  and writes the second, and the string holds its content twice.
\<close>

lemma Append_own_view_in_place:
  fixes mem :: "'c::zero memory"
  assumes ok: "storage_ok MaxShortStringSize mem s" and fits: "2 * Size s < Capacity s"
      and cap: "Capacity s < 2 ^ 64" and c: "contents mem (GetView s) = Inr xs"
  shows "\<exists>mem' s'. Append mem s (GetView s) = Inr (mem', s') \<and> Size s' = 2 * Size s
          \<and> Capacity s' = Capacity s \<and> contents mem' (GetView s') = Inr (xs @ xs)"
proof -
  let ?M = MaxShortStringSize
  let ?n = "Size s"
  from data_block [OF ok] obtain d cs where d: "GetData ?M s = Ptr d"
    "cells_of mem (Ptr d) = Inr cs" "length cs = Capacity s" by blast
  have dl: "d < length mem" using d(2) by (simp add: cells_of_Ptr)
  have gs: "GetSize (GetView s) = ?n"
    using fits cap by (simp add: GetView_def StringView_of_def GetSize_def size_t_id)
  have v: "m_Base (GetView s) = Ptr d" "m_StrBegin (GetView s) = 0"
    using d(1) by (simp_all add: GetView_def StringView_of_def)
  from c have "load_range mem (Ptr d) 0 ?n = Inr xs" by (simp add: contents_def gs v)
  from load_range_cells_conv [OF d(2) this]
  have xl: "length xs = ?n" and xc: "\<forall>i<?n. cs ! i = Some (xs ! i)" by auto
  have "2 * ?n < Capacity s" "?n \<le> 2 * ?n" using fits by auto
  from Resize_in_place [OF ok this d(1,2)] obtain cs1 where
    r: "Resize ?M mem s (2 * ?n) = Inr (mem[d := Live cs1], s\<lparr>Size := 2 * ?n\<rparr>)"
    and l1: "length cs1 = length cs" and p1: "\<forall>j<?n. cs1 ! j = cs ! j" by blast
  let ?s1 = "s\<lparr>Size := 2 * ?n\<rparr>"
  let ?mem1 = "mem[d := Live cs1]"
  have gd1: "GetData ?M ?s1 = Ptr d" using d(1) by (auto simp: GetData_def)
  have st: "size_t (int ?n + int ?n) = 2 * ?n"
    using fits cap by (subst size_t_id) auto
  have rm: "ResizeMore mem s ?n = Inr (?mem1, ?s1, (Ptr d, ?n))"
    using r gd1 st by (simp add: ResizeMore_def String_Resize_def bindF_def Let_def)
  have c1: "cells_of ?mem1 (Ptr d) = Inr cs1" using dl by (rule cells_of_update_same)
  have "\<exists>cs'. copy ?mem1 (Ptr d) 0 ?n (Ptr d) ?n = Inr (?mem1[d := Live cs'])
            \<and> length cs' = length cs1 \<and> (\<forall>j<?n. cs' ! j = cs1 ! j)
            \<and> (\<forall>i<?n. cs' ! (?n + i) = Some (xs ! i))"
  proof (rule copy_within_block [OF c1 _ _ xl])
    show "0 + ?n \<le> ?n" by simp
    show "?n + ?n \<le> length cs1" using fits l1 d(3) by simp
    show "\<forall>i<?n. cs1 ! (0 + i) = Some (xs ! i)" using p1 xc by simp
  qed
  then obtain cs' where cp: "copy ?mem1 (Ptr d) 0 ?n (Ptr d) ?n = Inr (?mem1[d := Live cs'])"
    and l': "length cs' = length cs" and q1: "\<forall>j<?n. cs' ! j = cs1 ! j"
    and q2: "\<forall>i<?n. cs' ! (?n + i) = Some (xs ! i)" using l1 by auto
  let ?mem' = "mem[d := Live cs']"
  have ap: "Append mem s (GetView s) = Inr (?mem', ?s1)"
    using rm cp gs v by (simp add: Append_def bindF_def)
  have c': "cells_of ?mem' (Ptr d) = Inr cs'" using dl by (rule cells_of_update_same)
  have gs': "GetSize (GetView ?s1) = 2 * ?n"
    using fits cap by (simp add: GetView_def StringView_of_def GetSize_def size_t_id)
  have all: "\<forall>i<2 * ?n. cs' ! (0 + i) = Some ((xs @ xs) ! i)"
  proof (intro allI impI)
    fix i assume i: "i < 2 * ?n"
    show "cs' ! (0 + i) = Some ((xs @ xs) ! i)"
    proof (cases "i < ?n")
      case True
      then show ?thesis using q1 p1 xc xl by (simp add: nth_append)
    next
      case False
      then have "i = ?n + (i - ?n)" "i - ?n < ?n" using i by auto
      then show ?thesis using q2 [rule_format, of "i - ?n"] xl False by (simp add: nth_append)
    qed
  qed
  have "load_range ?mem' (Ptr d) 0 (2 * ?n) = Inr (xs @ xs)"
    using fits l' d(3) xl by (intro load_range_cells [OF c' _ _ all]) auto
  then have "contents ?mem' (GetView ?s1) = Inr (xs @ xs)"
    using gd1 gs' by (simp add: contents_def GetView_def StringView_of_def)
  then show ?thesis using ap by (intro exI [of _ ?mem'] exI [of _ ?s1]) simp
qed

subsection \<open>The failure table that MatchString builds\<close>

lemma size_t_nat: "k < 2 ^ 64 \<Longrightarrow> size_t (int k) = k"
  by (simp add: size_t_id)

lemma GetSize_StringView_of: "n < 2 ^ 64 \<Longrightarrow> GetSize (StringView_of p n) = n"
  by (simp add: GetSize_def StringView_of_def size_t_nat)

lemma contents_prefix:
  assumes "cells_of mem (Ptr d) = Inr (map Some xs)" "n \<le> length xs" "n < 2 ^ 64"
  shows "contents mem (StringView_of (Ptr d) n) = Inr (take n xs)"
proof -
  have "load_range mem (Ptr d) 0 n = Inr (take n xs)"
    using assms(2) by (intro load_range_cells [OF assms(1)]) auto
  then show ?thesis
    using assms(3) by (simp add: contents_def GetSize_StringView_of) (simp add: StringView_of_def)
qed

lemma strong_border_run_0:
  assumes "Suc i < n"
  shows "strong_border (replicate n a @ ys) i = 0"
proof (rule strong_border_0I)
  fix c
  assume b: "is_border (replicate n a @ ys) (Suc i) c"
    and ne: "(replicate n a @ ys) ! c \<noteq> (replicate n a @ ys) ! Suc i"
  from b have "c < Suc i" by (simp add: is_border_def)
  then have "(replicate n a @ ys) ! c = a" "(replicate n a @ ys) ! Suc i = a"
    using assms by (simp_all add: nth_append)
  then show "c = 0" using ne by simp
qed

lemma strong_border_run_last:
  assumes "a \<noteq> b" "0 < n"
  shows "strong_border (replicate n a @ [b]) (n - 1) = n - 1"
proof (rule strong_border_eqI)
  show "is_border (replicate n a @ [b]) (Suc (n - 1)) (n - 1)"
    using assms(2) by (auto simp: is_border_nth nth_append)
  show "(replicate n a @ [b]) ! (n - 1) \<noteq> (replicate n a @ [b]) ! Suc (n - 1)"
    using assms by (simp add: nth_append)
  show "c \<le> n - 1" if "is_border (replicate n a @ [b]) (Suc (n - 1)) c" for c
  proof -
    from that have "c < Suc (n - 1)" by (simp add: is_border_def)
    then show ?thesis by simp
  qed
qed

lemma longest_border_run:
  assumes "2 \<le> n"
  shows "longest_border (replicate n a @ ys) 2 = 1"
  unfolding longest_border_def
proof (rule last_filter_upt_max)
  show "is_border (replicate n a @ ys) 2 1"
    using assms by (simp add: is_border_nth nth_append)
  show "(1::nat) < 2" by simp
  show "\<forall>c<2. is_border (replicate n a @ ys) 2 c \<longrightarrow> c \<le> 1" by auto
qed

text \<open>
  A pattern of \<open>m \<ge> 8193\<close> code units has \<open>tableSize = m - 1 \<ge> 8192\<close>, so its table comes from
  \<^verbatim>\<open>new (std::nothrow) std::ptrdiff_t[tableSize]\<close> and has \<open>m - 1\<close> entries when the
  allocation succeeds.
\<close>

lemma MatchString_table_heap:
  assumes c: "contents mem pattern = Inr p"
      and m: "MaxAllocaSize div sizeof_ptrdiff_t \<le> length p - 1"
      and fuel: "2 * length p \<le> fuel"
  shows "\<exists>t. MatchString_table fuel True mem (m_Base pattern) (m_StrBegin pattern) (length p)
                = Some (Inr (Some t))
          \<and> length t = length p - 1
          \<and> (\<forall>i<length p - 1. t ! i = Some (strong_border p i))"
proof -
  from load_range_nth [OF c [unfolded contents_def]] have sz: "GetSize pattern = length p"
    by simp
  have lt: "length p < 2 ^ 64" using GetSize_lt [of pattern] sz by simp
  have m2: "2 \<le> length p" using m by (simp add: MaxAllocaSize_def sizeof_ptrdiff_t_def)
  have e: "int (length p) - 1 = int (length p - 1)" using m2 by simp
  have ts: "size_t (int (length p) - 1) = length p - 1"
    unfolding e using lt by (intro size_t_nat) simp
  from BuildTable_returns [OF c m2 fuel] obtain t where
    t: "BuildTable fuel mem (m_Base pattern) (m_StrBegin pattern) (length p)
          (replicate (length p - 1) None) = Some (Inr t)"
       "length t = length p - 1" "\<forall>i<length p - 1. t ! i = Some (strong_border p i)"
    by blast
  have "MatchString_table fuel True mem (m_Base pattern) (m_StrBegin pattern) (length p)
          = Some (Inr (Some t))"
    unfolding MatchString_table_def Let_def ts
    by (simp only: m t(1) if_True option.case option.simps sum.simps map_sum.simps id_apply)
  then show ?thesis using t(2,3) by blast
qed

text \<open>
  The loop that fills the table, run on a table of two entries for the pattern \<^verbatim>\<open>"aaa"\<close>:
  the longest proper border of \<^verbatim>\<open>"aa"\<close> has length 1 and \<open>table[1]\<close> is 0. \<^verbatim>\<open>MatchString\<close>
  itself has no such table for a short pattern: the block of \<^verbatim>\<open>alloca(tableSize)\<close> has room
  for \<open>(m - 1) div 8\<close> entries, and the write of \<open>table[0]\<close>, or of a later entry, is out of
  bounds, here for the patterns \<^verbatim>\<open>"aaa"\<close> and \<^verbatim>\<open>"aabaaab"\<close>.
\<close>

lemma BuildTable_aaa:
  "BuildTable 6 [Live (map Some ''aaa'')] (Ptr 0) 0 3 (replicate 2 None)
     = Some (Inr [Some 0, Some 0])
   \<and> longest_border ''aaa'' 2 = 1"
  by code_simp

lemma MatchString_table_overruns_alloca_block:
  "MatchString_table 6 True [Live (map Some ''aaa'')] (Ptr 0) 0 3 = Some (Inl OutOfBounds)
   \<and> MatchString_table 14 True [Live (map Some ''aabaaab'')] (Ptr 0) 0 7
     = Some (Inl OutOfBounds)"
  by code_simp

text \<open>
  C8, as the specification states it: for a pattern of length \<open>m \<ge> 1\<close> the table has
  \<open>m - 1\<close> entries, \<open>table[i]\<close> is the length of the longest proper border of
  \<open>pattern[0..i]\<close>, and the table is built in a linear number of steps. The code stores
  \<^verbatim>\<open>table[cand - 1]\<close> instead of \<open>cand\<close> when the code unit after the border equals the
  code unit after the prefix. The pattern of 8193 code units \<open>a\<close> is long enough for its
  table to come from the heap: the longest proper border of its prefix \<^verbatim>\<open>"aa"\<close> has length
  1, and \<open>table[1]\<close>, like every entry of the table that \<^verbatim>\<open>MatchString\<close> builds, is 0.
\<close>

theorem MatchString_table_run_counterexample:
  "MatchString_table 16386 True [Live (map Some (replicate 8193 (CHR ''a'')))] (Ptr 0) 0 8193
     = Some (Inr (Some (replicate 8192 (Some 0))))
   \<and> longest_border (replicate 8193 (CHR ''a'')) 2 = 1"
proof -
  let ?p = "replicate 8193 (CHR ''a'')"
  let ?mem = "[Live (map Some ?p)]"
  let ?v = "StringView_of (Ptr 0) 8193"
  have c: "contents ?mem ?v = Inr ?p"
    using contents_prefix [of ?mem 0 ?p 8193] by (simp add: cells_of_def)
  have m: "MaxAllocaSize div sizeof_ptrdiff_t \<le> length ?p - 1"
    by (simp add: MaxAllocaSize_def sizeof_ptrdiff_t_def)
  have f: "2 * length ?p \<le> 16386" by simp
  from MatchString_table_heap [OF c m f] obtain t where
    t: "MatchString_table 16386 True ?mem (m_Base ?v) (m_StrBegin ?v) (length ?p)
          = Some (Inr (Some t))"
       "length t = length ?p - 1" "\<forall>i<length ?p - 1. t ! i = Some (strong_border ?p i)"
    by blast
  have s: "strong_border ?p i = 0" if "i < 8192" for i
    using strong_border_run_0 [of i 8193 "CHR ''a''" "[]"] that by simp
  have "t = replicate 8192 (Some 0)"
    using t(2,3) s by (intro nth_equalityI) simp_all
  moreover have "longest_border ?p 2 = 1"
    using longest_border_run [of 8193 "CHR ''a''" "[]"] by simp
  ultimately show ?thesis using t(1) by (simp add: StringView_of_def)
qed

text \<open>
  C8, amended: for a readable pattern of length \<open>m\<close> whose table comes from the heap
  (\<open>m - 1 \<ge> MaxAllocaSize / sizeof(std::ptrdiff_t) = 8192\<close>, and the allocation succeeds),
  \<^verbatim>\<open>MatchString\<close> builds the table within \<open>2 * m\<close> passes through the loop body, without
  a fault; the table has \<open>m - 1\<close> entries and, for every \<open>i\<close> in \<open>[0, m - 2]\<close>, \<open>table[i]\<close>
  is the length of the longest proper border \<open>b\<close> of \<open>pattern[0..i]\<close> with
  \<open>pattern[b] \<noteq> pattern[i + 1]\<close>, or \<open>0\<close> when there is none; it is at most the length of
  the longest proper border of \<open>pattern[0..i]\<close>.
\<close>

theorem MatchString_table_strong_borders:
  assumes c: "contents mem pattern = Inr p"
      and m: "MaxAllocaSize div sizeof_ptrdiff_t \<le> length p - 1"
      and fuel: "2 * length p \<le> fuel"
  shows "\<exists>t. MatchString_table fuel True mem (m_Base pattern) (m_StrBegin pattern)
                (GetSize pattern) = Some (Inr (Some t))
          \<and> length t = GetSize pattern - 1
          \<and> (\<forall>i<GetSize pattern - 1.
                t ! i = Some (strong_border p i)
                \<and> strong_border p i \<le> longest_border p (Suc i))"
proof -
  from load_range_nth [OF c [unfolded contents_def]] have sz: "GetSize pattern = length p"
    by simp
  from MatchString_table_heap [OF c m fuel] obtain t where
    t: "MatchString_table fuel True mem (m_Base pattern) (m_StrBegin pattern) (length p)
          = Some (Inr (Some t))"
       "length t = length p - 1" "\<forall>i<length p - 1. t ! i = Some (strong_border p i)"
    by blast
  have "\<forall>i<length p - 1. t ! i = Some (strong_border p i)
          \<and> strong_border p i \<le> longest_border p (Suc i)"
    using t(3) by (simp add: strong_border_le_longest)
  then show ?thesis unfolding sz using t(1,2) by blast
qed

text \<open>
  The theorem at the pattern of 8192 code units \<open>a\<close> followed by one \<open>b\<close>, with fuel
  \<open>2 * 8193\<close>: the table has 8192 entries; \<open>table[8191] = 8191\<close> and the other entries are 0.
\<close>

theorem MatchString_table_strong_borders_witness:
  "contents [Live (map Some (replicate 8192 (CHR ''a'') @ ''b''))] (StringView_of (Ptr 0) 8193)
     = Inr (replicate 8192 (CHR ''a'') @ ''b'')
   \<and> MaxAllocaSize div sizeof_ptrdiff_t \<le> length (replicate 8192 (CHR ''a'') @ ''b'') - 1
   \<and> MatchString_table 16386 True [Live (map Some (replicate 8192 (CHR ''a'') @ ''b''))]
        (Ptr 0) 0 8193
      = Some (Inr (Some (replicate 8191 (Some 0) @ [Some 8191])))"
proof -
  let ?p = "replicate 8192 (CHR ''a'') @ ''b''"
  let ?mem = "[Live (map Some ?p)]"
  let ?v = "StringView_of (Ptr 0) 8193"
  have c: "contents ?mem ?v = Inr ?p"
    using contents_prefix [of ?mem 0 ?p 8193] by (simp add: cells_of_def)
  have m: "MaxAllocaSize div sizeof_ptrdiff_t \<le> length ?p - 1"
    by (simp add: MaxAllocaSize_def sizeof_ptrdiff_t_def)
  have f: "2 * length ?p \<le> 16386" by simp
  have g: "GetSize ?v = 8193" by (simp add: GetSize_StringView_of)
  from MatchString_table_strong_borders [OF c m f] obtain t where
    t: "MatchString_table 16386 True ?mem (m_Base ?v) (m_StrBegin ?v) (GetSize ?v)
          = Some (Inr (Some t))"
       "length t = GetSize ?v - 1"
       "\<forall>i<GetSize ?v - 1. t ! i = Some (strong_border ?p i)
            \<and> strong_border ?p i \<le> longest_border ?p (Suc i)"
    by blast
  have s0: "strong_border ?p i = 0" if "i < 8191" for i
    using strong_border_run_0 [of i 8192 "CHR ''a''" "''b''"] that by simp
  have s1: "strong_border ?p 8191 = 8191"
    using strong_border_run_last [of "CHR ''a''" "CHR ''b''" 8192] by simp
  have "t ! i = (replicate 8191 (Some 0) @ [Some 8191]) ! i" if "i < 8192" for i
  proof (cases "i < 8191")
    case True
    then show ?thesis using t(3) g s0 [OF True] by (simp add: nth_append)
  next
    case False
    then have "i = 8191" using that by simp
    then show ?thesis using t(3) g s1 by (simp add: nth_append)
  qed
  then have "t = replicate 8191 (Some 0) @ [Some 8191]"
    using t(2) g by (intro nth_equalityI) simp_all
  then show ?thesis using t(1) g c m by (simp add: StringView_of_def)
qed

subsection \<open>Substring search\<close>

lemma Match_loop_verify_run:
  assumes eq: "\<And>k. ml \<le> k \<Longrightarrow> k < ml + j \<Longrightarrow>
                 \<exists>x. load mem src (current + k) = Inr x \<and> load mem pat (pb + k) = Inr x"
      and le: "ml + j \<le> patternSize"
  shows "Match_loop (2 * j + fuel) mem src sb se pat pb patternSize table AtVerify current ml
         = Match_loop fuel mem src sb se pat pb patternSize table AtVerify current (ml + j)"
  using assms
proof (induction j arbitrary: ml)
  case 0
  show ?case by simp
next
  case (Suc j)
  from Suc.prems(1) [of ml] obtain x where
    x: "load mem src (current + ml) = Inr x" "load mem pat (pb + ml) = Inr x" by auto
  have lt: "\<not> patternSize \<le> ml" using Suc.prems(2) by simp
  have e: "2 * Suc j + fuel = Suc (Suc (2 * j + fuel))" by simp
  have "Match_loop (2 * Suc j + fuel) mem src sb se pat pb patternSize table AtVerify current ml
        = Match_loop (2 * j + fuel) mem src sb se pat pb patternSize table AtVerify current (Suc ml)"
    unfolding e using x lt by (simp add: bindO_def)
  also have "\<dots> = Match_loop fuel mem src sb se pat pb patternSize table AtVerify current
                     (Suc ml + j)"
  proof (rule Suc.IH)
    show "\<exists>x. load mem src (current + k) = Inr x \<and> load mem pat (pb + k) = Inr x"
      if "Suc ml \<le> k" "k < Suc ml + j" for k
      using Suc.prems(1) [of k] that by simp
    show "Suc ml + j \<le> patternSize" using Suc.prems(2) by simp
  qed
  finally show ?case by simp
qed

lemma load_run:
  assumes "cells_of mem p = Inr (map Some (replicate n a @ ys))"
  shows "k < n \<Longrightarrow> load mem p k = Inr a"
    and "k < length ys \<Longrightarrow> load mem p (n + k) = Inr (ys ! k)"
  using assms by (simp_all add: load_def bindF_def nth_append)

lemma ptrdiff_t_nat: "k < 2 ^ 63 \<Longrightarrow> ptrdiff_t (int k) = int k"
  by (simp add: ptrdiff_t_def)

text \<open>
  The source array is \<open>n + 1\<close> code units \<open>a\<close> and one \<open>b\<close>, the window its first \<open>n + 1\<close>
  code units, and the pattern \<open>n\<close> code units \<open>a\<close> and one \<open>b\<close>. The first attempt fails at
  \<open>matchLen = n\<close>; the table entry \<open>n - 1\<close> sends control to \<^verbatim>\<open>Fallback\<close> with
  \<open>current = 1\<close>, and the comparison goes on to \<open>current[n]\<close>, the \<open>b\<close> behind the window.
\<close>

lemma Match_loop_run_behind_view:
  fixes a b :: 'c
  assumes ab: "a \<noteq> b" and n: "2 \<le> n" and n63: "Suc n < 2 ^ 63"
      and src: "cells_of mem src = Inr (map Some (replicate (Suc n) a @ [b]))"
      and pat: "cells_of mem pat = Inr (map Some (replicate n a @ [b]))"
      and len: "length t = n" and last: "t ! (n - 1) = Some (n - 1)"
  shows "Match_loop (2 * n + 5 + fuel) mem src 0 (Suc n) pat 0 (Suc n) (Some t) AtScan 0 1
         = Some (Inr 1)"
proof -
  note s = load_run [OF src]
  note p = load_run [OF pat]
  have s0: "load mem src 0 = Inr a" using s(1) [of 0] by simp
  have p0: "load mem pat 0 = Inr a" using p(1) [of 0] n by simp
  have sn: "load mem src n = Inr a" using s(1) [of n] by simp
  have pn: "load mem pat n = Inr b" using p(2) [of 0] by simp
  have pn1: "load mem pat (n - 1) = Inr a" using p(1) [of "n - 1"] n by simp
  have sn1: "load mem src (Suc n) = Inr b" using s(2) [of 0] by simp
  have tr: "table_read t (n - 1) = Inr (n - 1)"
    using len last n by (simp add: table_read_def)
  have f: "2 * n + 5 + fuel = Suc (2 * (n - 1) + Suc (Suc (Suc (Suc (Suc (Suc fuel))))))"
    using n by simp
  have scan: "\<not> int (Suc n) - int 0 < ptrdiff_t (int (Suc n))"
    unfolding ptrdiff_t_nat [OF n63] by simp
  have "Match_loop (2 * n + 5 + fuel) mem src 0 (Suc n) pat 0 (Suc n) (Some t) AtScan 0 1
        = Match_loop (2 * (n - 1) + Suc (Suc (Suc (Suc (Suc (Suc fuel))))))
            mem src 0 (Suc n) pat 0 (Suc n) (Some t) AtVerify 0 1"
    unfolding f using scan s0 p0 by (simp add: bindO_def)
  also have "\<dots> = Match_loop (Suc (Suc (Suc (Suc (Suc (Suc fuel))))))
                     mem src 0 (Suc n) pat 0 (Suc n) (Some t) AtVerify 0 (1 + (n - 1))"
  proof (rule Match_loop_verify_run)
    show "\<exists>x. load mem src (0 + k) = Inr x \<and> load mem pat (0 + k) = Inr x"
      if "1 \<le> k" "k < 1 + (n - 1)" for k
      using s(1) [of k] p(1) [of k] that by simp
    show "1 + (n - 1) \<le> Suc n" by simp
  qed
  also have "1 + (n - 1) = n" using n by simp
  also have "Match_loop (Suc (Suc (Suc (Suc (Suc (Suc fuel))))))
               mem src 0 (Suc n) pat 0 (Suc n) (Some t) AtVerify 0 n
             = Match_loop (Suc (Suc (Suc (Suc fuel))))
                 mem src 0 (Suc n) pat 0 (Suc n) (Some t) AtFallback 1 (n - 1)"
    using sn pn ab tr n by (simp add: bindO_def Let_def)
  also have "\<dots> = Match_loop (Suc (Suc (Suc fuel)))
                     mem src 0 (Suc n) pat 0 (Suc n) (Some t) AtVerify 1 n"
    using sn pn1 n by (simp add: bindO_def)
  also have "\<dots> = Match_loop (Suc fuel)
                     mem src 0 (Suc n) pat 0 (Suc n) (Some t) AtVerify 1 (Suc n)"
    using sn1 pn by (simp add: bindO_def)
  also have "\<dots> = Some (Inr 1)"
    by (simp add: size_t_def)
  finally show ?thesis .
qed

lemma naive_find_run:
  assumes "a \<noteq> b"
  shows "naive_find (replicate (Suc n) a) (replicate n a @ [b]) 0 = npos"
proof -
  have "\<not> occurs_at (replicate (Suc n) a) (replicate n a @ [b]) i" for i
  proof
    assume o: "occurs_at (replicate (Suc n) a) (replicate n a @ [b]) i"
    then have "i = 0" by (simp add: occurs_at_def)
    with o have eq: "replicate (Suc n) a = replicate n a @ [b]" by (simp add: occurs_at_def)
    have "b \<in> set (replicate n a @ [b])" by simp
    also have "\<dots> = set (replicate (Suc n) a)" using eq by (simp only:)
    finally show False using assms by simp
  qed
  then have "filter (occurs_at (replicate (Suc n) a) (replicate n a @ [b]))
               [0..<Suc (length (replicate (Suc n) a))] = []"
    by (simp add: filter_empty_conv)
  then show ?thesis unfolding naive_find_def by simp
qed

text \<open>
  C4: \<^verbatim>\<open>Find(pattern, nBegin)\<close> returns what the naive reference search returns. After a
  mismatch with a non-zero table entry the code jumps to \<^verbatim>\<open>Fallback\<close> and goes on
  comparing without testing that the pattern still fits before \<^verbatim>\<open>srcEnd\<close>. The array is
  8193 code units \<open>a\<close> followed by one \<open>b\<close>, and the view its first 8193 code units; the
  pattern, 8192 code units \<open>a\<close> followed by one \<open>b\<close>, does not occur in the view, and
  \<^verbatim>\<open>Find\<close> reads the \<open>b\<close> behind the view and returns offset \<open>1\<close>. (The pattern is this
  long so that its table comes from the heap and has all its entries.)
\<close>

theorem Find_matches_behind_view:
  "contents [Live (map Some (replicate 8193 (CHR ''a'') @ ''b'')),
             Live (map Some (replicate 8192 (CHR ''a'') @ ''b''))] (StringView_of (Ptr 0) 8193)
     = Inr (replicate 8193 (CHR ''a''))
   \<and> contents [Live (map Some (replicate 8193 (CHR ''a'') @ ''b'')),
               Live (map Some (replicate 8192 (CHR ''a'') @ ''b''))] (StringView_of (Ptr 1) 8193)
     = Inr (replicate 8192 (CHR ''a'') @ ''b'')
   \<and> Find 20000 True [Live (map Some (replicate 8193 (CHR ''a'') @ ''b'')),
                      Live (map Some (replicate 8192 (CHR ''a'') @ ''b''))]
       (StringView_of (Ptr 0) 8193) (StringView_of (Ptr 1) 8193) 0 = Some (Inr 1)
   \<and> naive_find (replicate 8193 (CHR ''a'')) (replicate 8192 (CHR ''a'') @ ''b'') 0 = npos"
proof -
  let ?src = "replicate 8193 (CHR ''a'') @ ''b''"
  let ?p = "replicate 8192 (CHR ''a'') @ ''b''"
  let ?mem = "[Live (map Some ?src), Live (map Some ?p)]"
  let ?v = "StringView_of (Ptr 0) 8193"
  let ?pat = "StringView_of (Ptr 1) 8193"
  have cv: "contents ?mem ?v = Inr (replicate 8193 (CHR ''a''))"
    using contents_prefix [of ?mem 0 ?src 8193] by (simp add: cells_of_def)
  have cp: "contents ?mem ?pat = Inr ?p"
    using contents_prefix [of ?mem 1 ?p 8193] by (simp add: cells_of_def)
  have m: "MaxAllocaSize div sizeof_ptrdiff_t \<le> length ?p - 1"
    by (simp add: MaxAllocaSize_def sizeof_ptrdiff_t_def)
  have f: "2 * length ?p \<le> 20000" by simp
  from MatchString_table_heap [OF cp m f] obtain t where
    t: "MatchString_table 20000 True ?mem (m_Base ?pat) (m_StrBegin ?pat) (length ?p)
          = Some (Inr (Some t))"
       "length t = length ?p - 1" "\<forall>i<length ?p - 1. t ! i = Some (strong_border ?p i)"
    by blast
  have tb: "MatchString_table 20000 True ?mem (Ptr 1) 0 8193 = Some (Inr (Some t))"
    using t(1) by (simp add: StringView_of_def)
  have len: "length t = 8192" using t(2) by simp
  have "strong_border ?p 8191 = 8191"
    using strong_border_run_last [of "CHR ''a''" "CHR ''b''" 8192] by simp
  then have last: "t ! (8192 - 1) = Some (8192 - 1)" using t(3) by simp
  have fuel: "(20000::nat) = 2 * 8192 + 5 + 3611" by simp
  have ma: "Match_loop 20000 ?mem (Ptr 0) 0 8193 (Ptr 1) 0 8193 (Some t) AtScan 0 1
              = Some (Inr 1)"
    unfolding fuel
    using Match_loop_run_behind_view [of "CHR ''a''" "CHR ''b''" 8192 ?mem "Ptr 0" "Ptr 1" t 3611]
      len last
    by (simp add: cells_of_def)
  have ao: "ApplyOffset 0 8193 = Inr 0" by (simp add: ApplyOffset_def size_t_def)
  have np: "(1::nat) \<noteq> npos" by (simp add: npos_def size_t_def)
  have g: "GetSize ?v = 8193" "GetSize ?pat = 8193" by (simp_all add: GetSize_StringView_of)
  have fi: "Find 20000 True ?mem ?v ?pat 0 = Some (Inr 1)"
    unfolding Find_def Let_def g ao
    using tb ma np
    by (simp add: bindO_def MatchString_def StringView_of_def size_t_def)
  have nf: "naive_find (replicate 8193 (CHR ''a'')) ?p 0 = npos"
    using naive_find_run [of "CHR ''a''" "CHR ''b''" 8192] by simp
  from cv cp fi nf show ?thesis by blast
qed

text \<open>
  The same path at a small scale: with the table \<open>[0, 1]\<close> of the pattern \<^verbatim>\<open>"aab"\<close>, the
  matching loops search the view \<^verbatim>\<open>"aaa"\<close> of the array \<^verbatim>\<open>"aaab"\<close> and return offset \<open>1\<close>.
\<close>

lemma Match_loop_aaab:
  "BuildTable 6 [Live (map Some ''aaab''), Live (map Some ''aab'')] (Ptr 1) 0 3
     (replicate 2 None) = Some (Inr [Some 0, Some 1])
   \<and> Match_loop 20 [Live (map Some ''aaab''), Live (map Some ''aab'')] (Ptr 0) 0 3 (Ptr 1) 0 3
       (Some [Some 0, Some 1]) AtScan 0 1 = Some (Inr 1)
   \<and> naive_find ''aaa'' ''aab'' 0 = npos"
  by code_simp

text \<open>
  \<^verbatim>\<open>Find\<close> itself, for a pattern of at most 8192 code units, gets its table from
  \<^verbatim>\<open>alloca(tableSize)\<close> and writes entries that the block has no room for: the two
  searches the specification gives as examples and a search for one code unit.
\<close>

lemma Find_overruns_alloca_block:
  "Find 40 True [Live (map Some ''AABAACAADAABAABA''), Live (map Some ''AABA'')]
     (StringView_of (Ptr 0) 16) (StringView_of (Ptr 1) 4) 0 = Some (Inl OutOfBounds)
   \<and> Find 40 True [Live (map Some ''AABAACAADAABAABA''), Live (map Some ''XYZ'')]
     (StringView_of (Ptr 0) 16) (StringView_of (Ptr 1) 3) 0 = Some (Inl OutOfBounds)
   \<and> Find 40 True [Live (map Some ''abc''), Live (map Some ''c'')]
     (StringView_of (Ptr 0) 3) (StringView_of (Ptr 1) 1) 0 = Some (Inl OutOfBounds)"
  by code_simp

end
